theory Spec2Isabelle
  imports Main "HOL-Library.Word"
begin

unbundle bit_operations_syntax

section \<open>Data model of the compare engine (Engine.cpp)\<close>

text \<open>
  A C++ \<open>char\<close> is an 8-bit word, a \<open>uint64_t\<close> a 64-bit word. Line numbers, offsets
  and lengths are C++ \<open>int\<close>s; they are modelled as unbounded integers (the engine never
  comes near the 32-bit limits on documents that fit in an editor buffer).
\<close>

type_synonym byte = "8 word"
type_synonym uint64 = "64 word"

record section_t =
  s_off :: int
  s_len :: int

record Line =
  l_line :: int
  l_hash :: uint64

text \<open>
  The marker masks are symbolic: their bit values are defined by the host. The result
  codes are those of Engine.h.
\<close>

datatype marker_mask =
    MARKER_MASK_ADDED | MARKER_MASK_REMOVED | MARKER_MASK_ADDED_LOCAL | MARKER_MASK_REMOVED_LOCAL
  | MARKER_MASK_CHANGED | MARKER_MASK_CHANGED_LOCAL | MARKER_MASK_MOVED_LINE
  | MARKER_MASK_MOVED_BEGIN | MARKER_MASK_MOVED_MID | MARKER_MASK_MOVED_END

datatype CompareResult = COMPARE_ERROR | COMPARE_CANCELLED | COMPARE_MATCH | COMPARE_MISMATCH

record DocCmpInfo =
  dc_view :: int
  dc_section :: section_t
  dc_blockDiffMask :: marker_mask
  dc_lines :: "Line list"
  dc_nonUniqueLines :: "int set"

text \<open>
  \<open>CompareOptions\<close> is declared in Engine.h; the fields are the ones Engine.cpp reads.
  \<open>selections\<close> is the array indexed by the view id.
\<close>

record CompareOptions =
  ignoreCase :: bool
  ignoreSpaces :: bool
  ignoreEmptyLines :: bool
  detectMoves :: bool
  charPrecision :: bool
  matchPercentThreshold :: int
  selectionCompare :: bool
  selections :: "int \<Rightarrow> int \<times> int"
  findUniqueMode :: bool
  oldFileViewId :: int

subsection \<open>The host editor\<close>

text \<open>
  Modelled from the spec: the host text provider (\<open>lineCount\<close>, \<open>lineStart\<close>,
  \<open>lineEnd\<close>, \<open>getText\<close>; in the code \<open>CallScintilla\<close>, \<open>getLineStart\<close>,
  \<open>getLineEnd\<close> and \<open>getText\<close> of NppHelpers). A document is the list of its lines,
  each without its terminator; the buffer is the lines, each followed by a one-byte
  terminator, and byte positions index the buffer. \<open>getText\<close> returns the bytes of the
  range followed by a NUL, as the callers' \<open>line.size() - 1\<close> expects. A line outside
  the document is empty. The host maps a view id to its document.
\<close>

type_synonym document = "byte list list"
type_synonym host = "int \<Rightarrow> document"

definition MAIN_VIEW :: int where
  "MAIN_VIEW = 0"

definition SUB_VIEW :: int where
  "SUB_VIEW = 1"

definition docText :: "document \<Rightarrow> byte list" where
  "docText d = concat (map (\<lambda>l. l @ [10]) d)"

definition sciGetLength :: "document \<Rightarrow> int" where
  "sciGetLength d = int (length (docText d) - 1)"

definition sciGetLineCount :: "document \<Rightarrow> int" where
  "sciGetLineCount d = int (length d)"

definition getLineStart :: "document \<Rightarrow> int \<Rightarrow> int" where
  "getLineStart d i = int (length (docText (take (nat i) d)))"

definition getLineEnd :: "document \<Rightarrow> int \<Rightarrow> int" where
  "getLineEnd d i =
     (if 0 \<le> i \<and> i < int (length d) then getLineStart d i + int (length (d ! nat i))
      else getLineStart d i)"

definition getText :: "document \<Rightarrow> int \<Rightarrow> int \<Rightarrow> byte list" where
  "getText d s e = take (nat (e - s)) (drop (nat s) (docText d)) @ [0]"

text \<open>
  Modelled from the spec: \<open>toLowerCase\<close> (Tools) folds ASCII A-Z to a-z and leaves every
  other byte alone.
\<close>

definition toLowerCase :: "byte list \<Rightarrow> byte list" where
  "toLowerCase line = map (\<lambda>c. if 65 \<le> c \<and> c \<le> 90 then c + 32 else c) line"

text \<open>
  The progress dialog is a capability that may be absent (a null \<open>progress_ptr\<close>). When
  present, it answers each \<open>Advance\<close> or \<open>NextPhase\<close> call with \<open>false\<close> once the
  user has cancelled: the stream of its future answers is the model, and a call consumes
  the first one.
\<close>

type_synonym progress_ptr = "(nat \<Rightarrow> bool) option"

definition progressCall :: "(nat \<Rightarrow> bool) \<Rightarrow> bool \<times> progress_ptr" where
  "progressCall f = (f 0, Some (\<lambda>n. f (Suc n)))"

definition never_cancels :: "progress_ptr \<Rightarrow> bool" where
  "never_cancels pg = (case pg of None \<Rightarrow> True | Some f \<Rightarrow> \<forall>n. f n)"

section \<open>Hasher\<close>

definition cHashSeed :: uint64 where
  "cHashSeed = 0x84222325"

text \<open>
  \<open>static_cast<uint64_t>(letter)\<close> of a \<open>char\<close>: \<open>char\<close> is signed on the
  compilers the build file names (MSVC, MinGW), so the conversion extends the sign.
\<close>

definition char_to_uint64 :: "byte \<Rightarrow> uint64" where
  "char_to_uint64 letter = scast letter"

definition Hash :: "uint64 \<Rightarrow> byte \<Rightarrow> uint64" where
  "Hash hval letter =
     (let h = hval XOR char_to_uint64 letter
      in h + (push_bit 1 h + push_bit 4 h + push_bit 5 h + push_bit 7 h + push_bit 8 h
              + push_bit 40 h))"

text \<open>
  The step of the hash in the words of the specification, \<open>hval XOR byte\<close> with the
  byte as the number from 0 to 255 that it is, to be compared with \<open>Hash\<close>.
\<close>

definition specHash :: "uint64 \<Rightarrow> byte \<Rightarrow> uint64" where
  "specHash hval b =
     (let h = hval XOR ucast b
      in h + (push_bit 1 h + push_bit 4 h + push_bit 5 h + push_bit 7 h + push_bit 8 h
              + push_bit 40 h))"

section \<open>Line extractor\<close>

text \<open>The loop of \<open>getLines\<close> over the bytes of one line.\<close>

function hashLoop :: "CompareOptions \<Rightarrow> byte list \<Rightarrow> int \<Rightarrow> nat \<Rightarrow> uint64 \<Rightarrow> uint64" where
  "hashLoop options line n i h =
     (if int i < n then
        (if ignoreSpaces options \<and> (line ! i = 32 \<or> line ! i = 9)
         then hashLoop options line n (i + 1) h
         else hashLoop options line n (i + 1) (Hash h (line ! i)))
      else h)"
  by pat_completeness auto
termination
  by (relation "measure (\<lambda>(options, line, n, i, h). nat n - i)") auto

text \<open>The body of the loop over the lines: the \<open>Line\<close> built for \<open>lineNum\<close>.\<close>

definition newLine :: "document \<Rightarrow> CompareOptions \<Rightarrow> int \<Rightarrow> Line" where
  "newLine d options docLine =
     (let lineStart = getLineStart d docLine;
          lineEnd = getLineEnd d docLine
      in \<lparr>l_line = docLine,
          l_hash = (if lineEnd - lineStart \<noteq> 0 then
                      (let line0 = getText d lineStart lineEnd;
                           line = (if ignoreCase options then toLowerCase line0 else line0)
                       in hashLoop options line (lineEnd - lineStart) 0 cHashSeed)
                    else cHashSeed)\<rparr>)"

function getLinesLoop ::
  "progress_ptr \<Rightarrow> document \<Rightarrow> CompareOptions \<Rightarrow> section_t \<Rightarrow> nat \<Rightarrow> Line list
     \<Rightarrow> Line list \<times> progress_ptr" where
  "getLinesLoop progress d options sec lineNum acc =
     (if int lineNum < s_len sec then
        (let cancelled =
               (case progress of
                  None \<Rightarrow> (False, progress)
                | Some f \<Rightarrow>
                    (if lineNum mod 500 = 0
                     then (case progressCall f of (ok, pg) \<Rightarrow> (\<not> ok, pg))
                     else (False, progress)))
         in if fst cancelled then ([], snd cancelled)
            else
              (let nl = newLine d options (int lineNum + s_off sec)
               in getLinesLoop (snd cancelled) d options sec (lineNum + 1)
                    (if \<not> ignoreEmptyLines options \<or> l_hash nl \<noteq> cHashSeed
                     then acc @ [nl] else acc)))
      else (acc, progress))"
  by pat_completeness auto
termination
  by (relation "measure (\<lambda>(progress, d, options, sec, lineNum, acc). nat (s_len sec) - lineNum)")
     auto

text \<open>
  The exceptions of the engine. \<open>doc.lines.reserve(doc.section.len)\<close> converts the
  \<open>int\<close> to the unsigned size type: a negative length becomes a number above
  \<open>max_size()\<close> and \<open>reserve\<close> throws \<open>std::length_error\<close>. Nothing in
  Engine.cpp up to \<open>compareViews\<close> catches it.
\<close>

datatype error = length_error

text \<open>
  \<open>getLines\<close>: the document is the one of the view \<open>doc.view\<close>. The result is the
  exception thrown by \<open>reserve\<close>, or the updated \<open>doc\<close> (its \<open>lines\<close> and the
  clamped \<open>section.len\<close>) and the progress dialog. The clamped length is negative
  exactly when the section begins after the last line. \<open>SetMaxCount\<close> only sizes the
  progress bar.
\<close>

definition getLines ::
  "progress_ptr \<Rightarrow> host \<Rightarrow> DocCmpInfo \<Rightarrow> CompareOptions \<Rightarrow> error + DocCmpInfo \<times> progress_ptr" where
  "getLines progress hst doc options =
     (let d = hst (dc_view doc);
          doc0 = doc\<lparr>dc_lines := []\<rparr>
      in if sciGetLength d = 0 then Inr (doc0, progress)
         else
           (let linesCount = sciGetLineCount d;
                sec = dc_section doc0;
                sec' = (if s_len sec \<le> 0 \<or> s_off sec + s_len sec > linesCount
                        then sec\<lparr>s_len := linesCount - s_off sec\<rparr> else sec)
            in if s_len sec' < 0 then Inl length_error
               else
                 (let res = getLinesLoop progress d options sec' 0 []
                  in Inr (doc0\<lparr>dc_section := sec', dc_lines := fst res\<rparr>, snd res))))"

text \<open>
  The bytes of a raw line that \<open>getLines\<close> folds into the hash, in the words of the
  specification: the line, case-folded when \<open>ignoreCase\<close>, without its spaces and
  tabs when \<open>ignoreSpaces\<close>.
\<close>

definition foldedBytes :: "CompareOptions \<Rightarrow> byte list \<Rightarrow> byte list" where
  "foldedBytes options raw =
     filter (\<lambda>c. \<not> (ignoreSpaces options \<and> (c = 32 \<or> c = 9)))
       (if ignoreCase options then toLowerCase raw else raw)"


section \<open>Example inputs\<close>

definition exOptions :: CompareOptions where
  "exOptions = \<lparr>ignoreCase = True, ignoreSpaces = True, ignoreEmptyLines = True,
     detectMoves = True, charPrecision = True, matchPercentThreshold = 50,
     selectionCompare = False, selections = (\<lambda>v. (0, 0)), findUniqueMode = False,
     oldFileViewId = 0\<rparr>"

definition exDoc :: DocCmpInfo where
  "exDoc = \<lparr>dc_view = 0, dc_section = \<lparr>s_off = 0, s_len = 0\<rparr>,
     dc_blockDiffMask = MARKER_MASK_REMOVED,
     dc_lines = [], dc_nonUniqueLines = {}\<rparr>"


section \<open>Find-unique mode\<close>

text \<open>
  A \<open>std::unordered_map<uint64_t, std::vector<int>>\<close> is an association list with one
  entry per key; \<open>emplace\<close> adds an entry for a new hash and otherwise appends the
  line to the entry's vector. The iteration order of the C++ container is unspecified; the
  model iterates in the order of first insertion.
\<close>

type_synonym lines_map = "(uint64 \<times> int list) list"

fun umap_emplace :: "lines_map \<Rightarrow> uint64 \<Rightarrow> int \<Rightarrow> lines_map" where
  "umap_emplace [] h l = [(h, [l])]"
| "umap_emplace ((k, v) # m) h l =
     (if k = h then (k, v @ [l]) # m else (k, v) # umap_emplace m h l)"

definition buildLinesMap :: "Line list \<Rightarrow> lines_map" where
  "buildLinesMap ls = foldl (\<lambda>m line. umap_emplace m (l_hash line) (l_line line)) [] ls"

text \<open>\<open>find(h) != end()\<close> and \<open>erase\<close>.\<close>

definition umap_find :: "lines_map \<Rightarrow> uint64 \<Rightarrow> bool" where
  "umap_find m h = (map_of m h \<noteq> None)"

definition umap_erase :: "lines_map \<Rightarrow> uint64 \<Rightarrow> lines_map" where
  "umap_erase m h = filter (\<lambda>kv. fst kv \<noteq> h) m"

text \<open>
  The loop of \<open>runFindUnique\<close> over \<open>doc1UniqueLines\<close>: the remaining
  \<open>doc2UniqueLines\<close>, \<open>doc1UniqueLinesCount\<close> and the lines of document 1 that
  receive a marker.
\<close>

fun uniqueLoop :: "lines_map \<Rightarrow> lines_map \<Rightarrow> int \<Rightarrow> int list \<Rightarrow> lines_map \<times> int \<times> int list" where
  "uniqueLoop [] doc2UniqueLines cnt marked = (doc2UniqueLines, cnt, marked)"
| "uniqueLoop ((h, ls) # rest) doc2UniqueLines cnt marked =
     (if umap_find doc2UniqueLines h
      then uniqueLoop rest (umap_erase doc2UniqueLines h) cnt marked
      else uniqueLoop rest doc2UniqueLines (cnt + int (length ls)) (marked @ ls))"

text \<open>
  \<open>progress && !progress->NextPhase()\<close>: the first component is \<open>False\<close> when the
  dialog is present and answers that the user cancelled.
\<close>

definition NextPhase :: "progress_ptr \<Rightarrow> bool \<times> progress_ptr" where
  "NextPhase progress = (case progress of None \<Rightarrow> (True, None) | Some f \<Rightarrow> progressCall f)"


text \<open>
  The documents as \<open>runCompare\<close> and \<open>runFindUnique\<close> set them up: the section is the
  selection of the view when \<open>selectionCompare\<close>, and \<open>(0, 0)\<close> (the whole document)
  otherwise.
\<close>

definition initDoc :: "CompareOptions \<Rightarrow> int \<Rightarrow> marker_mask \<Rightarrow> DocCmpInfo" where
  "initDoc options v blockMask =
     \<lparr>dc_view = v,
      dc_section =
        (if selectionCompare options
         then \<lparr>s_off = fst (selections options v),
               s_len = snd (selections options v) - fst (selections options v) + 1\<rparr>
         else \<lparr>s_off = 0, s_len = 0\<rparr>),
      dc_blockDiffMask = blockMask, dc_lines = [], dc_nonUniqueLines = {}\<rparr>"

text \<open>
  \<open>runFindUnique\<close> returns the result code and the markers it sets on the host, as
  (view, line, mask), or the exception that \<open>getLines\<close> throws. The alignment pair it
  appends on a mismatch is not modelled.
\<close>

definition runFindUnique ::
  "progress_ptr \<Rightarrow> host \<Rightarrow> CompareOptions
     \<Rightarrow> error + CompareResult \<times> (int \<times> int \<times> marker_mask) list" where
  "runFindUnique progress hst options =
     (let doc1 = initDoc options MAIN_VIEW
                   (if oldFileViewId options = MAIN_VIEW then MARKER_MASK_REMOVED else MARKER_MASK_ADDED);
          doc2 = initDoc options SUB_VIEW
                   (if oldFileViewId options = MAIN_VIEW then MARKER_MASK_ADDED else MARKER_MASK_REMOVED)
      in case getLines progress hst doc1 options of
           Inl e \<Rightarrow> Inl e
         | Inr g1 \<Rightarrow>
      (let p1 = NextPhase (snd g1)
      in if \<not> fst p1 then Inr (COMPARE_CANCELLED, [])
         else
           (case getLines (snd p1) hst doc2 options of
              Inl e \<Rightarrow> Inl e
            | Inr g2 \<Rightarrow>
           (let p2 = NextPhase (snd g2)
            in if \<not> fst p2 then Inr (COMPARE_CANCELLED, [])
               else
                 (let doc1UniqueLines = buildLinesMap (dc_lines (fst g1));
                      p3 = NextPhase (snd p2)
                  in if \<not> fst p3 then Inr (COMPARE_CANCELLED, [])
                     else
                       (let doc2UniqueLines = buildLinesMap (dc_lines (fst g2));
                            p4 = NextPhase (snd p3)
                        in if \<not> fst p4 then Inr (COMPARE_CANCELLED, [])
                           else
                             (case uniqueLoop doc1UniqueLines doc2UniqueLines 0 [] of
                                (doc2Rest, doc1UniqueLinesCount, marked1) \<Rightarrow>
                                  (let markers1 =
                                         map (\<lambda>l. (dc_view doc1, l, dc_blockDiffMask doc1)) marked1
                                   in if doc1UniqueLinesCount = 0 \<and> doc2Rest = []
                                      then Inr (COMPARE_MATCH, markers1)
                                      else Inr (COMPARE_MISMATCH,
                                            markers1 @
                                            concat (map (\<lambda>(h, ls).
                                               map (\<lambda>l. (dc_view doc2, l, dc_blockDiffMask doc2)) ls)
                                              doc2Rest))))))))))"

text \<open>
  The normalized lines of the document of view \<open>v\<close>: the lines that the extractor gives
  for the document as set up above when it is not cancelled (none when it throws). The
  section of the view lies inside its document when it begins at a line of the document
  or right after the last one: such a section the extractor clamps, any later one makes
  it throw.
\<close>

definition normalizedLines :: "host \<Rightarrow> CompareOptions \<Rightarrow> int \<Rightarrow> Line list" where
  "normalizedLines hst options v =
     (case getLines None hst (initDoc options v MARKER_MASK_ADDED) options of
        Inl e \<Rightarrow> []
      | Inr g \<Rightarrow> dc_lines (fst g))"

definition sectionInside :: "host \<Rightarrow> CompareOptions \<Rightarrow> int \<Rightarrow> bool" where
  "sectionInside hst options v =
     (s_off (dc_section (initDoc options v MARKER_MASK_ADDED)) \<le> sciGetLineCount (hst v))"

definition exHostUnique :: host where
  "exHostUnique = (\<lambda>v. if v = 0 then [[97], [97], [98]] else [[98], [97]])"

section \<open>Block diffs and the move detector\<close>

text \<open>
  \<open>diff_info<blockDiffInfo>\<close> is declared in diff.h; the fields are the ones Engine.cpp
  uses. \<open>matchBlock\<close> and \<open>MatchInfo::matchDiff\<close> are pointers to elements of
  \<open>cmpInfo.blockDiffs\<close>: they are modelled as indices into that vector, and the
  comparison of two such pointers as the comparison of the indices.
\<close>

datatype diff_type = DIFF_MATCH | DIFF_IN_1 | DIFF_IN_2

record diffLine =
  dl_line :: int
  dl_changes :: "section_t list"

record blockDiffInfo =
  matchBlock :: "nat option"
  changedLines :: "diffLine list"
  moves :: "section_t list"

record diffInfo =
  d_type :: diff_type
  d_off :: int
  d_len :: int
  d_info :: blockDiffInfo

record CompareInfo =
  doc1 :: DocCmpInfo
  doc2 :: DocCmpInfo
  blockDiffs :: "diffInfo list"

record MatchInfo =
  lookupOff :: int
  matchDiff :: "nat option"
  matchOff :: int
  matchLen :: int

text \<open>
  \<open>movedSection\<close> and \<open>getNextUnmoved\<close> of \<open>blockDiffInfo\<close>, on the \<open>moves\<close>
  vector. \<open>getNextUnmoved\<close> returns \<open>Some\<close> of the new value of its reference
  argument when it returns \<open>true\<close>.
\<close>

fun movedSection :: "section_t list \<Rightarrow> int \<Rightarrow> int" where
  "movedSection [] line = 0"
| "movedSection (move # rest) line =
     (if line \<ge> s_off move \<and> line < s_off move + s_len move then s_len move
      else movedSection rest line)"

fun getNextUnmoved :: "section_t list \<Rightarrow> int \<Rightarrow> int option" where
  "getNextUnmoved [] line = None"
| "getNextUnmoved (move # rest) line =
     (if line \<ge> s_off move \<and> line < s_off move + s_len move then Some (s_off move + s_len move)
      else getNextUnmoved rest line)"

text \<open>
  The hash of \<open>lines[i]\<close>: two \<open>Line\<close>s are equal when their hashes are. The engine
  reads the line arrays at \<open>block.off + offset\<close> with offsets inside the block.
\<close>

definition lineAt :: "Line list \<Rightarrow> int \<Rightarrow> uint64" where
  "lineAt ls i = l_hash (ls ! nat i)"

text \<open>
  The two loops of \<open>findBestMatch\<close> that extend a match to the left and to the right.
  They return the final values of their two counters.
\<close>

function lookBack ::
  "Line list \<Rightarrow> Line list \<Rightarrow> diffInfo \<Rightarrow> diffInfo \<Rightarrow> int \<Rightarrow> int \<Rightarrow> int \<Rightarrow> int \<times> int" where
  "lookBack lookupLines matchLines lookupDiff matchDiff' matchLastUnmoved lookupStart matchStart =
     (if lookupStart \<ge> 0 \<and> matchStart \<ge> matchLastUnmoved \<and>
         lineAt lookupLines (d_off lookupDiff + lookupStart) =
           lineAt matchLines (d_off matchDiff' + matchStart) \<and>
         movedSection (moves (d_info lookupDiff)) lookupStart = 0
      then lookBack lookupLines matchLines lookupDiff matchDiff' matchLastUnmoved
             (lookupStart - 1) (matchStart - 1)
      else (lookupStart, matchStart))"
  by pat_completeness auto

termination
  by (relation "measure (\<lambda>(ll, ml, ld, md, mlu, ls, ms). nat (ls + 1))") auto

function lookAhead ::
  "Line list \<Rightarrow> Line list \<Rightarrow> diffInfo \<Rightarrow> diffInfo \<Rightarrow> int \<Rightarrow> int \<Rightarrow> int \<times> int" where
  "lookAhead lookupLines matchLines lookupDiff matchDiff' lookupEnd matchEnd =
     (if lookupEnd < d_len lookupDiff \<and> matchEnd < d_len matchDiff' \<and>
         lineAt lookupLines (d_off lookupDiff + lookupEnd) =
           lineAt matchLines (d_off matchDiff' + matchEnd) \<and>
         movedSection (moves (d_info lookupDiff)) lookupEnd = 0 \<and>
         movedSection (moves (d_info matchDiff')) matchEnd = 0
      then lookAhead lookupLines matchLines lookupDiff matchDiff' (lookupEnd + 1) (matchEnd + 1)
      else (lookupEnd, matchEnd))"
  by pat_completeness auto

termination
  by (relation "measure (\<lambda>(ll, ml, ld, md, le, me). nat (d_len ld - le))") auto

text \<open>A candidate run: the block it lies in, its start in the lookup block, its start in
  the matching block and its length.\<close>

record candidate =
  c_diff :: nat
  c_lookupStart :: int
  c_matchStart :: int
  c_len :: int

definition candidateAt ::
  "Line list \<Rightarrow> Line list \<Rightarrow> diffInfo \<Rightarrow> int \<Rightarrow> nat \<Rightarrow> diffInfo \<Rightarrow> int \<Rightarrow> int \<Rightarrow> candidate" where
  "candidateAt lookupLines matchLines lookupDiff lookupOff' k matchDiff' matchOff' matchLastUnmoved =
     (let back = lookBack lookupLines matchLines lookupDiff matchDiff' matchLastUnmoved
                   (lookupOff' - 1) (matchOff' - 1);
          lookupStart = fst back + 1;
          matchStart = snd back + 1;
          ahead = lookAhead lookupLines matchLines lookupDiff matchDiff' (lookupOff' + 1) (matchOff' + 1);
          lookupEnd = fst ahead
      in \<lparr>c_diff = k, c_lookupStart = lookupStart, c_matchStart = matchStart,
          c_len = lookupEnd - lookupStart\<rparr>)"

text \<open>
  The update of \<open>mi\<close> and \<open>minMatchLen\<close> at the end of the loop body of
  \<open>findBestMatch\<close>.
\<close>

definition considerCandidate :: "MatchInfo \<times> int \<Rightarrow> candidate \<Rightarrow> MatchInfo \<times> int" where
  "considerCandidate st c =
     (let mi = fst st; minMatchLen = snd st
      in if matchLen mi < c_len c
         then (\<lparr>lookupOff = c_lookupStart c, matchDiff = Some (c_diff c),
                 matchOff = c_matchStart c, matchLen = c_len c\<rparr>, c_len c)
         else if matchLen mi = c_len c then (mi\<lparr>matchDiff := None\<rparr>, minMatchLen)
         else (mi, minMatchLen))"

text \<open>
  The loop over \<open>matchOff\<close> inside one block. When \<open>getNextUnmoved\<close> moves
  \<open>matchOff\<close> past a move, \<open>matchLastUnmoved\<close> takes the same value and the
  \<open>--matchOff; continue\<close> resumes the loop there; the loop ends because that value is
  larger than \<open>matchOff\<close>.
\<close>

lemma getNextUnmoved_gt: "getNextUnmoved ms line = Some n \<Longrightarrow> line < n"
  by (induction ms) (auto split: if_splits)

function scanBlock ::
  "Line list \<Rightarrow> Line list \<Rightarrow> diffInfo \<Rightarrow> int \<Rightarrow> nat \<Rightarrow> diffInfo \<Rightarrow> int \<Rightarrow> int
     \<Rightarrow> MatchInfo \<times> int \<Rightarrow> MatchInfo \<times> int" where
  "scanBlock lookupLines matchLines lookupDiff lookupOff' k matchDiff' matchOff' matchLastUnmoved st =
     (if matchOff' < d_len matchDiff' then
        (if lineAt lookupLines (d_off lookupDiff + lookupOff') \<noteq>
              lineAt matchLines (d_off matchDiff' + matchOff')
         then scanBlock lookupLines matchLines lookupDiff lookupOff' k matchDiff' (matchOff' + 1)
                matchLastUnmoved st
         else
           (case getNextUnmoved (moves (d_info matchDiff')) matchOff' of
              Some next \<Rightarrow>
                scanBlock lookupLines matchLines lookupDiff lookupOff' k matchDiff' next next st
            | None \<Rightarrow>
                scanBlock lookupLines matchLines lookupDiff lookupOff' k matchDiff' (matchOff' + 1)
                  matchLastUnmoved
                  (considerCandidate st
                     (candidateAt lookupLines matchLines lookupDiff lookupOff' k matchDiff'
                        matchOff' matchLastUnmoved))))
      else st)"
  by pat_completeness auto

termination
  by (relation "measure (\<lambda>(ll, ml, ld, lo, k, md, mo, mlu, st). nat (d_len md - mo))")
     (auto dest: getNextUnmoved_gt)

text \<open>The loop over \<open>cmpInfo.blockDiffs\<close>; \<open>k\<close> is the index of the block.\<close>

function scanBlocks ::
  "Line list \<Rightarrow> Line list \<Rightarrow> diff_type \<Rightarrow> diffInfo \<Rightarrow> int \<Rightarrow> diffInfo list \<Rightarrow> nat
     \<Rightarrow> MatchInfo \<times> int \<Rightarrow> MatchInfo \<times> int" where
  "scanBlocks lookupLines matchLines matchType lookupDiff lookupOff' [] k st = st"
| "scanBlocks lookupLines matchLines matchType lookupDiff lookupOff' (matchDiff' # rest) k st =
     (if d_type matchDiff' \<noteq> matchType \<or> d_len matchDiff' < snd st
      then scanBlocks lookupLines matchLines matchType lookupDiff lookupOff' rest (k + 1) st
      else scanBlocks lookupLines matchLines matchType lookupDiff lookupOff' rest (k + 1)
             (scanBlock lookupLines matchLines lookupDiff lookupOff' k matchDiff' 0 0 st))"
  by pat_completeness auto

termination
  by (relation "measure (\<lambda>(ll, ml, mt, ld, lo, bs, k, st). length bs)") auto

text \<open>
  \<open>findBestMatch\<close>. The fields \<open>lookupOff\<close> and \<open>matchOff\<close> of \<open>mi\<close> are
  uninitialised in the C++ until a candidate is accepted and are not read before; the model
  starts them at 0.
\<close>

definition findBestMatch :: "CompareInfo \<Rightarrow> diffInfo \<Rightarrow> int \<Rightarrow> MatchInfo" where
  "findBestMatch cmpInfo lookupDiff lookupOff' =
     (let mi = \<lparr>lookupOff = 0, matchDiff = None, matchOff = 0, matchLen = 0\<rparr>;
          lookupLines = (if d_type lookupDiff = DIFF_IN_1 then dc_lines (doc1 cmpInfo)
                         else dc_lines (doc2 cmpInfo));
          matchLines = (if d_type lookupDiff = DIFF_IN_1 then dc_lines (doc2 cmpInfo)
                        else dc_lines (doc1 cmpInfo));
          matchType = (if d_type lookupDiff = DIFF_IN_1 then DIFF_IN_2 else DIFF_IN_1)
      in fst (scanBlocks lookupLines matchLines matchType lookupDiff lookupOff'
                (blockDiffs cmpInfo) 0 (mi, 1)))"

text \<open>\<open>blockDiffs[k].info.moves.emplace_back(off, len)\<close>.\<close>

definition addMove :: "CompareInfo \<Rightarrow> nat \<Rightarrow> int \<Rightarrow> int \<Rightarrow> CompareInfo" where
  "addMove cmpInfo k off len =
     cmpInfo\<lparr>blockDiffs := (blockDiffs cmpInfo)
       [k := (blockDiffs cmpInfo ! k)
          \<lparr>d_info := (d_info (blockDiffs cmpInfo ! k))
             \<lparr>moves := moves (d_info (blockDiffs cmpInfo ! k)) @ [\<lparr>s_off = off, s_len = len\<rparr>]\<rparr>\<rparr>]\<rparr>"

text \<open>
  \<open>resolveMatch\<close> and the loops of \<open>findMoves\<close>. The recursion of \<open>resolveMatch\<close>
  and the \<open>while (repeat)\<close> loop have no bound in the code, so the model takes fuel and
  returns \<open>None\<close> when it runs out. \<open>resolveMatch\<close> returns its result, the updated
  \<open>cmpInfo\<close> and the updated \<open>lookupMi\<close>; \<open>li\<close> is the index of \<open>lookupDiff\<close>.
  In \<open>lookupLoop\<close> the assignment \<open>lookupEi = mi.lookupOff + mi.matchLen - 1\<close> is
  followed by the \<open>++lookupEi\<close> of the loop, and \<open>--lookupEi\<close> by the same.
\<close>

primrec resolveMatch ::
  "nat \<Rightarrow> CompareInfo \<Rightarrow> nat \<Rightarrow> int \<Rightarrow> MatchInfo \<Rightarrow> (bool \<times> CompareInfo \<times> MatchInfo) option" where
  "resolveMatch 0 cmpInfo li lookupOff' lookupMi = None"
| "resolveMatch (Suc fuel) cmpInfo li lookupOff' lookupMi =
     (case matchDiff lookupMi of
        None \<Rightarrow> Some (False, cmpInfo, lookupMi)
      | Some mk \<Rightarrow>
          (let lookupOff2 = matchOff lookupMi + (lookupOff' - lookupOff lookupMi);
               reverseMi = findBestMatch cmpInfo (blockDiffs cmpInfo ! mk) lookupOff2
           in if matchDiff reverseMi = Some li
              then Some (True,
                         addMove (addMove cmpInfo li (lookupOff lookupMi) (matchLen lookupMi))
                           mk (matchOff lookupMi) (matchLen lookupMi),
                         lookupMi)
              else if matchDiff reverseMi \<noteq> None
              then (case resolveMatch fuel cmpInfo mk lookupOff2 reverseMi of
                      None \<Rightarrow> None
                    | Some (ret, cmpInfo', mi') \<Rightarrow> Some (ret, cmpInfo', lookupMi\<lparr>matchLen := 0\<rparr>))
              else Some (False, cmpInfo, lookupMi)))"

primrec lookupLoop :: "nat \<Rightarrow> CompareInfo \<Rightarrow> nat \<Rightarrow> int \<Rightarrow> bool \<Rightarrow> (CompareInfo \<times> bool) option" where
  "lookupLoop 0 cmpInfo k lookupEi repeat = None"
| "lookupLoop (Suc fuel) cmpInfo k lookupEi repeat =
     (let lookupDiff = blockDiffs cmpInfo ! k
      in if lookupEi < d_len lookupDiff then
           (case getNextUnmoved (moves (d_info lookupDiff)) lookupEi of
              Some next \<Rightarrow> lookupLoop fuel cmpInfo k next repeat
            | None \<Rightarrow>
                (case resolveMatch fuel cmpInfo k lookupEi (findBestMatch cmpInfo lookupDiff lookupEi) of
                   None \<Rightarrow> None
                 | Some (ret, cmpInfo', mi) \<Rightarrow>
                     if ret then
                       (if matchLen mi \<noteq> 0
                        then lookupLoop fuel cmpInfo' k (lookupOff mi + matchLen mi) True
                        else lookupLoop fuel cmpInfo' k lookupEi True)
                     else lookupLoop fuel cmpInfo' k (lookupEi + 1) repeat))
         else Some (cmpInfo, repeat))"

primrec blocksLoop :: "nat \<Rightarrow> CompareInfo \<Rightarrow> nat \<Rightarrow> bool \<Rightarrow> (CompareInfo \<times> bool) option" where
  "blocksLoop 0 cmpInfo k repeat = None"
| "blocksLoop (Suc fuel) cmpInfo k repeat =
     (if k < length (blockDiffs cmpInfo) then
        (if d_type (blockDiffs cmpInfo ! k) \<noteq> DIFF_IN_1
         then blocksLoop fuel cmpInfo (k + 1) repeat
         else (case lookupLoop fuel cmpInfo k 0 repeat of
                 None \<Rightarrow> None
               | Some (cmpInfo', repeat') \<Rightarrow> blocksLoop fuel cmpInfo' (k + 1) repeat'))
      else Some (cmpInfo, repeat))"

primrec findMoves :: "nat \<Rightarrow> CompareInfo \<Rightarrow> CompareInfo option" where
  "findMoves 0 cmpInfo = None"
| "findMoves (Suc fuel) cmpInfo =
     (case blocksLoop fuel cmpInfo 0 False of
        None \<Rightarrow> None
      | Some (cmpInfo', repeat) \<Rightarrow> if repeat then findMoves fuel cmpInfo' else Some cmpInfo')"

text \<open>
  The candidate runs that the scan of \<open>findBestMatch\<close> computes, in the order of the
  scan: those of one block, and those of all blocks of the opposite type.
\<close>

function blockCandidates ::
  "Line list \<Rightarrow> Line list \<Rightarrow> diffInfo \<Rightarrow> int \<Rightarrow> nat \<Rightarrow> diffInfo \<Rightarrow> int \<Rightarrow> int \<Rightarrow> candidate list" where
  "blockCandidates lookupLines matchLines lookupDiff lookupOff' k matchDiff' matchOff' matchLastUnmoved =
     (if matchOff' < d_len matchDiff' then
        (if lineAt lookupLines (d_off lookupDiff + lookupOff') \<noteq>
              lineAt matchLines (d_off matchDiff' + matchOff')
         then blockCandidates lookupLines matchLines lookupDiff lookupOff' k matchDiff' (matchOff' + 1)
                matchLastUnmoved
         else
           (case getNextUnmoved (moves (d_info matchDiff')) matchOff' of
              Some next \<Rightarrow>
                blockCandidates lookupLines matchLines lookupDiff lookupOff' k matchDiff' next next
            | None \<Rightarrow>
                candidateAt lookupLines matchLines lookupDiff lookupOff' k matchDiff'
                        matchOff' matchLastUnmoved #
                blockCandidates lookupLines matchLines lookupDiff lookupOff' k matchDiff' (matchOff' + 1)
                  matchLastUnmoved))
      else [])"
  by pat_completeness auto

termination
  by (relation "measure (\<lambda>(ll, ml, ld, lo, k, md, mo, mlu). nat (d_len md - mo))")
     (auto dest: getNextUnmoved_gt)

fun allCandidates ::
  "Line list \<Rightarrow> Line list \<Rightarrow> diff_type \<Rightarrow> diffInfo \<Rightarrow> int \<Rightarrow> diffInfo list \<Rightarrow> nat \<Rightarrow> candidate list" where
  "allCandidates lookupLines matchLines matchType lookupDiff lookupOff' [] k = []"
| "allCandidates lookupLines matchLines matchType lookupDiff lookupOff' (matchDiff' # rest) k =
     (if d_type matchDiff' \<noteq> matchType then []
      else blockCandidates lookupLines matchLines lookupDiff lookupOff' k matchDiff' 0 0)
     @ allCandidates lookupLines matchLines matchType lookupDiff lookupOff' rest (k + 1)"

definition candidates :: "CompareInfo \<Rightarrow> diffInfo \<Rightarrow> int \<Rightarrow> candidate list" where
  "candidates cmpInfo lookupDiff lookupOff' =
     (if d_type lookupDiff = DIFF_IN_1
      then allCandidates (dc_lines (doc1 cmpInfo)) (dc_lines (doc2 cmpInfo)) DIFF_IN_2
             lookupDiff lookupOff' (blockDiffs cmpInfo) 0
      else allCandidates (dc_lines (doc2 cmpInfo)) (dc_lines (doc1 cmpInfo)) DIFF_IN_1
             lookupDiff lookupOff' (blockDiffs cmpInfo) 0)"

text \<open>What holds of every candidate of a block scanned from a position at or after the
  last skipped move.\<close>

definition cand_ok :: "diffInfo \<Rightarrow> int \<Rightarrow> nat \<Rightarrow> diffInfo \<Rightarrow> candidate \<Rightarrow> bool" where
  "cand_ok ld lo k md c \<longleftrightarrow>
     c_diff c = k \<and> 1 \<le> c_len c \<and> c_lookupStart c \<le> lo \<and> lo < c_lookupStart c + c_len c \<and>
     0 \<le> c_matchStart c \<and> c_matchStart c + c_len c \<le> d_len md \<and>
     (0 \<le> lo \<longrightarrow> 0 \<le> c_lookupStart c) \<and>
     (lo < d_len ld \<longrightarrow> c_lookupStart c + c_len c \<le> d_len ld)"

text \<open>
  The initial \<open>mi\<close>, the relation between \<open>mi.matchLen\<close> and \<open>minMatchLen\<close> that
  the scan maintains, and what the result of the scan is with respect to the candidates:
  its length is the largest candidate length, and it names a block exactly when one
  candidate alone has that length.
\<close>

definition mi_init :: MatchInfo where
  "mi_init = \<lparr>lookupOff = 0, matchDiff = None, matchOff = 0, matchLen = 0\<rparr>"

definition good_st :: "MatchInfo \<times> int \<Rightarrow> bool" where
  "good_st st \<longleftrightarrow> 0 \<le> matchLen (fst st) \<and> snd st = max 1 (matchLen (fst st))"

definition best_spec :: "candidate list \<Rightarrow> MatchInfo \<Rightarrow> bool" where
  "best_spec cs mi \<longleftrightarrow>
     (let best = filter (\<lambda>c. c_len c = matchLen mi) cs
      in (\<forall>c\<in>set cs. c_len c \<le> matchLen mi) \<and>
         (cs = [] \<longrightarrow> matchLen mi = 0) \<and>
         (cs \<noteq> [] \<longrightarrow> best \<noteq> []) \<and>
         (matchDiff mi \<noteq> None \<longleftrightarrow> length best = 1) \<and>
         (\<forall>c. best = [c] \<longrightarrow> matchDiff mi = Some (c_diff c) \<and> lookupOff mi = c_lookupStart c
                  \<and> matchOff mi = c_matchStart c))"

text \<open>Example compare states: documents given by their line hashes.\<close>

definition mkLines :: "nat list \<Rightarrow> Line list" where
  "mkLines hs = map (\<lambda>(i, h). \<lparr>l_line = int i, l_hash = of_nat h\<rparr>) (enumerate 0 hs)"

definition mkDoc :: "int \<Rightarrow> marker_mask \<Rightarrow> nat list \<Rightarrow> DocCmpInfo" where
  "mkDoc v m hs = \<lparr>dc_view = v, dc_section = \<lparr>s_off = 0, s_len = int (length hs)\<rparr>,
     dc_blockDiffMask = m, dc_lines = mkLines hs, dc_nonUniqueLines = {}\<rparr>"

definition mkBlock :: "diff_type \<Rightarrow> int \<Rightarrow> int \<Rightarrow> diffInfo" where
  "mkBlock t off len = \<lparr>d_type = t, d_off = off, d_len = len,
     d_info = \<lparr>matchBlock = None, changedLines = [], moves = []\<rparr>\<rparr>"

text \<open>X=1, a..d = 5..8: document 1 is X a b c d, document 2 is a b X c d X.\<close>

definition exCmpTie :: CompareInfo where
  "exCmpTie = \<lparr>doc1 = mkDoc 0 MARKER_MASK_REMOVED [1, 5, 6, 7, 8],
               doc2 = mkDoc 1 MARKER_MASK_ADDED [5, 6, 1, 7, 8, 1],
               blockDiffs = [mkBlock DIFF_IN_1 0 1, mkBlock DIFF_MATCH 1 2, mkBlock DIFF_IN_2 2 1,
                             mkBlock DIFF_MATCH 3 2, mkBlock DIFF_IN_2 5 1]\<rparr>"

text \<open>
  The properties of a block's \<open>moves\<close> list: a span lies within the block and has at
  least one line; the spans are in ascending order of their offsets; the spans are
  pairwise disjoint.
\<close>

definition move_ok :: "diffInfo \<Rightarrow> section_t \<Rightarrow> bool" where
  "move_ok b m \<longleftrightarrow> 0 \<le> s_off m \<and> 1 \<le> s_len m \<and> s_off m + s_len m \<le> d_len b"

definition moves_in_range :: "diffInfo \<Rightarrow> bool" where
  "moves_in_range b = list_all (move_ok b) (moves (d_info b))"

definition all_in_range :: "CompareInfo \<Rightarrow> bool" where
  "all_in_range cmpInfo = list_all moves_in_range (blockDiffs cmpInfo)"

definition moves_sorted :: "section_t list \<Rightarrow> bool" where
  "moves_sorted ms = sorted (map s_off ms)"

fun moves_disjoint :: "section_t list \<Rightarrow> bool" where
  "moves_disjoint [] = True"
| "moves_disjoint (m # ms) =
     (list_all (\<lambda>m'. s_off m + s_len m \<le> s_off m' \<or> s_off m' + s_len m' \<le> s_off m) ms
      \<and> moves_disjoint ms)"

text \<open>P=1 Q=2 Z=3, m1 m2 = 8 9: document 1 is P Q m1 m2, document 2 is m1 m2 Q Z P.\<close>

definition exCmpUnsorted :: CompareInfo where
  "exCmpUnsorted = \<lparr>doc1 = mkDoc 0 MARKER_MASK_REMOVED [1, 2, 8, 9],
            doc2 = mkDoc 1 MARKER_MASK_ADDED [8, 9, 2, 3, 1],
            blockDiffs = [mkBlock DIFF_IN_1 0 2, mkBlock DIFF_MATCH 2 2, mkBlock DIFF_IN_2 2 3]\<rparr>"

text \<open>
  V W X Y = 1 2 3 4, a = 5, b1..b4 = 6..9, e = 10, f1..f4 = 11..14, P Q R S = 15..18:
  document 1 is V W X a X Y b1 b2 b3 b4 e f1 f2 f3 f4 P Q R S,
  document 2 is a b1 b2 b3 b4 V W X Y P Q R e R S f1 f2 f3 f4.
\<close>

definition exCmpOverlap :: CompareInfo where
  "exCmpOverlap = \<lparr>doc1 = mkDoc 0 MARKER_MASK_REMOVED
                             [1, 2, 3, 5, 3, 4, 6, 7, 8, 9, 10, 11, 12, 13, 14, 15, 16, 17, 18],
            doc2 = mkDoc 1 MARKER_MASK_ADDED
                             [5, 6, 7, 8, 9, 1, 2, 3, 4, 15, 16, 17, 10, 17, 18, 11, 12, 13, 14],
            blockDiffs = [mkBlock DIFF_IN_1 0 3, mkBlock DIFF_MATCH 3 1, mkBlock DIFF_IN_1 4 2,
                          mkBlock DIFF_MATCH 6 4, mkBlock DIFF_IN_2 5 7, mkBlock DIFF_MATCH 10 1,
                          mkBlock DIFF_IN_2 13 2, mkBlock DIFF_MATCH 11 4, mkBlock DIFF_IN_1 15 4]\<rparr>"

text \<open>The same two documents in the other order.\<close>

definition exCmpOverlapSwapped :: CompareInfo where
  "exCmpOverlapSwapped = \<lparr>doc1 = mkDoc 1 MARKER_MASK_ADDED
                             [5, 6, 7, 8, 9, 1, 2, 3, 4, 15, 16, 17, 10, 17, 18, 11, 12, 13, 14],
            doc2 = mkDoc 0 MARKER_MASK_REMOVED
                             [1, 2, 3, 5, 3, 4, 6, 7, 8, 9, 10, 11, 12, 13, 14, 15, 16, 17, 18],
            blockDiffs = [mkBlock DIFF_IN_2 0 3, mkBlock DIFF_MATCH 0 1, mkBlock DIFF_IN_2 4 2,
                          mkBlock DIFF_MATCH 1 4, mkBlock DIFF_IN_1 5 7, mkBlock DIFF_MATCH 12 1,
                          mkBlock DIFF_IN_1 13 2, mkBlock DIFF_MATCH 15 4, mkBlock DIFF_IN_2 15 4]\<rparr>"

text \<open>What \<open>findBestMatch\<close> guarantees of a match it returns for the offset \<open>lo\<close> of
  the block \<open>ld\<close>.\<close>

definition mi_ok :: "CompareInfo \<Rightarrow> diffInfo \<Rightarrow> int \<Rightarrow> MatchInfo \<Rightarrow> bool" where
  "mi_ok cmpInfo ld lo mi \<longleftrightarrow>
     (\<forall>k. matchDiff mi = Some k \<longrightarrow>
        k < length (blockDiffs cmpInfo) \<and> 1 \<le> matchLen mi \<and>
        lookupOff mi \<le> lo \<and> lo < lookupOff mi + matchLen mi \<and>
        0 \<le> lookupOff mi \<and> lookupOff mi + matchLen mi \<le> d_len ld \<and>
        0 \<le> matchOff mi \<and> matchOff mi + matchLen mi \<le> d_len (blockDiffs cmpInfo ! k))"

section \<open>Line comparison\<close>

text \<open>
  \<open>Word\<close> and \<open>Char\<close> are the elements of the word-level and of the char-level diff of
  a pair of lines. \<open>diff_seg\<close> is \<open>diff_info<void>\<close>: a segment of a diff, with its type,
  its offset into the sequence it belongs to and its length.
\<close>

datatype charType = SPACECHAR | ALPHANUMCHAR | OTHERCHAR

record Word =
  w_pos :: int
  w_len :: int
  w_hash :: uint64

record Char =
  ch :: byte
  ch_pos :: int

record diff_seg =
  ds_type :: diff_type
  ds_off :: int
  ds_len :: int

text \<open>
  \<open>DiffCalc\<close>, the LCS engine, is declared in diff.h, which is not part of the sources
  at hand: the line comparison takes its two instances as parameters. Each returns the
  segments and the flag that says whether the engine has exchanged its two inputs.
\<close>

record DiffCalc =
  calcWords :: "Word list \<Rightarrow> Word list \<Rightarrow> diff_seg list \<times> bool"
  calcChars :: "Char list \<Rightarrow> Char list \<Rightarrow> diff_seg list \<times> bool"

text \<open>
  Modelled from the spec: \<open>IsCharAlphaNumericA\<close> (Win32) is true of the ASCII digits and
  letters.
\<close>

definition IsCharAlphaNumericA :: "byte \<Rightarrow> bool" where
  "IsCharAlphaNumericA c \<longleftrightarrow> (48 \<le> c \<and> c \<le> 57) \<or> (65 \<le> c \<and> c \<le> 90) \<or> (97 \<le> c \<and> c \<le> 122)"

definition getCharType :: "byte \<Rightarrow> charType" where
  "getCharType letter =
     (if letter = 32 \<or> letter = 9 then SPACECHAR
      else if IsCharAlphaNumericA letter \<or> letter = 95 then ALPHANUMCHAR
      else OTHERCHAR)"

definition getSectionChars :: "document \<Rightarrow> int \<Rightarrow> int \<Rightarrow> CompareOptions \<Rightarrow> Char list" where
  "getSectionChars d secStart secEnd options =
     (if secEnd - secStart \<noteq> 0 then
        (let line0 = getText d secStart secEnd;
             lineLen = length line0 - 1;
             line = (if ignoreCase options then toLowerCase line0 else line0)
         in map (\<lambda>i. \<lparr>ch = line ! i, ch_pos = int i\<rparr>)
              (filter (\<lambda>i. \<not> ignoreSpaces options \<or> getCharType (line ! i) \<noteq> SPACECHAR)
                 [0..<lineLen]))
      else [])"

function wordsLoop ::
  "CompareOptions \<Rightarrow> byte list \<Rightarrow> nat \<Rightarrow> nat \<Rightarrow> charType \<Rightarrow> Word \<Rightarrow> Word list \<Rightarrow> Word list" where
  "wordsLoop options line lineLen i currentWordType word words =
     (if i < lineLen then
        (let newWordType = getCharType (line ! i)
         in if newWordType = currentWordType
            then wordsLoop options line lineLen (i + 1) currentWordType
                   (word\<lparr>w_len := w_len word + 1, w_hash := Hash (w_hash word) (line ! i)\<rparr>) words
            else wordsLoop options line lineLen (i + 1) newWordType
                   \<lparr>w_pos = int i, w_len = 1, w_hash = Hash cHashSeed (line ! i)\<rparr>
                   (if \<not> ignoreSpaces options \<or> currentWordType \<noteq> SPACECHAR
                    then words @ [word] else words))
      else (if \<not> ignoreSpaces options \<or> currentWordType \<noteq> SPACECHAR
            then words @ [word] else words))"
  by pat_completeness auto

termination
  by (relation "measure (\<lambda>(options, line, lineLen, i, t, w, ws). lineLen - i)") auto

definition getLineWords :: "document \<Rightarrow> int \<Rightarrow> CompareOptions \<Rightarrow> Word list" where
  "getLineWords d lineNum options =
     (let docLineStart = getLineStart d lineNum;
          docLineEnd = getLineEnd d lineNum
      in if docLineEnd - docLineStart \<noteq> 0 then
           (let line0 = getText d docLineStart docLineEnd;
                lineLen = length line0 - 1;
                line = (if ignoreCase options then toLowerCase line0 else line0)
            in wordsLoop options line lineLen 1 (getCharType (line ! 0))
                 \<lparr>w_pos = 0, w_len = 1, w_hash = Hash cHashSeed (line ! 0)\<rparr> [])
         else [])"

text \<open>\<open>v[i]\<close> for an \<open>int\<close> index.\<close>

definition at :: "'a list \<Rightarrow> int \<Rightarrow> 'a" where
  "at v i = v ! nat i"

definition emplaceLine :: "diffInfo \<Rightarrow> int \<Rightarrow> diffInfo" where
  "emplaceLine bd line =
     bd\<lparr>d_info := (d_info bd)\<lparr>changedLines := changedLines (d_info bd) @ [\<lparr>dl_line = line, dl_changes = []\<rparr>]\<rparr>\<rparr>"

definition popLine :: "diffInfo \<Rightarrow> diffInfo" where
  "popLine bd = bd\<lparr>d_info := (d_info bd)\<lparr>changedLines := butlast (changedLines (d_info bd))\<rparr>\<rparr>"

definition addChange :: "diffInfo \<Rightarrow> section_t \<Rightarrow> diffInfo" where
  "addChange bd change =
     bd\<lparr>d_info := (d_info bd)\<lparr>changedLines :=
        butlast (changedLines (d_info bd)) @
        [(last (changedLines (d_info bd)))
           \<lparr>dl_changes := dl_changes (last (changedLines (d_info bd))) @ [change]\<rparr>]\<rparr>\<rparr>"

text \<open>The state of the loop over the word segments of one line pair: the two blocks in
  the order of the (possibly swapped) pointers, and \<open>totalLineMatchLen\<close>.\<close>

record pairState =
  pBlockDiff1 :: diffInfo
  pBlockDiff2 :: diffInfo
  totalLineMatchLen :: int

definition addChange1 :: "pairState \<Rightarrow> section_t \<Rightarrow> pairState" where
  "addChange1 st change = st\<lparr>pBlockDiff1 := addChange (pBlockDiff1 st) change\<rparr>"

definition addChange2 :: "pairState \<Rightarrow> section_t \<Rightarrow> pairState" where
  "addChange2 st change = st\<lparr>pBlockDiff2 := addChange (pBlockDiff2 st) change\<rparr>"

text \<open>The first byte of a run of words and the byte after its last one, in the line.\<close>

definition segStart :: "Word list \<Rightarrow> diff_seg \<Rightarrow> int" where
  "segStart pLine ld = w_pos (at pLine (ds_off ld))"

definition segEnd :: "Word list \<Rightarrow> diff_seg \<Rightarrow> int" where
  "segEnd pLine ld =
     w_pos (at pLine (ds_off ld + ds_len ld - 1)) + w_len (at pLine (ds_off ld + ds_len ld - 1))"

definition wordSpan :: "Word list \<Rightarrow> diff_seg \<Rightarrow> section_t" where
  "wordSpan pLine ld = \<lparr>s_off = segStart pLine ld, s_len = segEnd pLine ld - segStart pLine ld\<rparr>"

text \<open>The chars of a run of words: \<open>getSectionChars\<close> on its bytes.\<close>

definition segChars :: "document \<Rightarrow> CompareOptions \<Rightarrow> Word list \<Rightarrow> int \<Rightarrow> diff_seg \<Rightarrow> Char list" where
  "segChars view options pLine lineOff ld =
     getSectionChars view (segStart pLine ld + lineOff) (segEnd pLine ld + lineOff) options"

definition charSpan :: "Char list \<Rightarrow> int \<Rightarrow> diff_seg \<Rightarrow> section_t" where
  "charSpan pSec off sd =
     (let start = ch_pos (at pSec (ds_off sd)) + off
      in \<lparr>s_off = start,
          s_len = ch_pos (at pSec (ds_off sd + ds_len sd - 1)) + off + 1 - start\<rparr>)"

text \<open>The loop that emits the residual spans of the char-level diff; \<open>swapped\<close> is the
  flag of the char-level \<open>DiffCalc\<close>, which exchanges \<open>pBD1\<close> and \<open>pBD2\<close>.\<close>

fun emitResidual ::
  "bool \<Rightarrow> Char list \<Rightarrow> Char list \<Rightarrow> int \<Rightarrow> int \<Rightarrow> diff_seg list \<Rightarrow> pairState \<Rightarrow> pairState" where
  "emitResidual swapped pSec1 pSec2 off1 off2 [] st = st"
| "emitResidual swapped pSec1 pSec2 off1 off2 (sd # rest) st =
     emitResidual swapped pSec1 pSec2 off1 off2 rest
       (if ds_type sd = DIFF_IN_1
        then (if swapped then addChange2 st (charSpan pSec1 off1 sd)
              else addChange1 st (charSpan pSec1 off1 sd))
        else if ds_type sd = DIFF_IN_2
        then (if swapped then addChange1 st (charSpan pSec2 off2 sd)
              else addChange2 st (charSpan pSec2 off2 sd))
        else st)"

text \<open>
  The two scans for a common beginning and a common end. The C++ scan for the beginning
  has no bound and the scan for the end bounds only the index into \<open>pSec2\<close>; the model
  stops both at the ends of the sequences, where the C++ would read outside them.
\<close>

function startMatchLoop :: "Char list \<Rightarrow> Char list \<Rightarrow> nat \<Rightarrow> nat" where
  "startMatchLoop pSec1 pSec2 startMatch =
     (if startMatch < length pSec1 \<and> startMatch < length pSec2 \<and>
         ch (pSec1 ! startMatch) = ch (pSec2 ! startMatch)
      then startMatchLoop pSec1 pSec2 (startMatch + 1) else startMatch)"
  by pat_completeness auto

termination
  by (relation "measure (\<lambda>(a, b, i). length a - i)") auto

function endMatchLoop :: "Char list \<Rightarrow> Char list \<Rightarrow> nat \<Rightarrow> nat \<Rightarrow> nat" where
  "endMatchLoop pSec1 pSec2 startMatch endMatch =
     (if int (length pSec2) - int endMatch - 1 > int startMatch \<and> endMatch < length pSec1 \<and>
         ch (pSec1 ! (length pSec1 - endMatch - 1)) = ch (pSec2 ! (length pSec2 - endMatch - 1))
      then endMatchLoop pSec1 pSec2 startMatch (endMatch + 1) else endMatch)"
  by pat_completeness auto

termination
  by (relation "measure (\<lambda>(a, b, s, e). length a - e)") auto

definition matchLenOf :: "diff_seg list \<Rightarrow> int" where
  "matchLenOf sectionDiffs = sum_list (map ds_len (filter (\<lambda>sd. ds_type sd = DIFF_MATCH) sectionDiffs))"

definition matchSectionsOf :: "diff_seg list \<Rightarrow> nat" where
  "matchSectionsOf sectionDiffs = length (filter (\<lambda>sd. ds_type sd = DIFF_MATCH) sectionDiffs)"

text \<open>
  The char-level refinement of an \<open>IN_1\<close> word segment \<open>ld\<close> followed by an \<open>IN_2\<close>
  segment \<open>ld2\<close>. The result says which branch ran: \<open>MatchWhole\<close> (the residual char
  spans are the changes), \<open>MatchEdges\<close> (only a common beginning and end are kept out of
  the changes), both of which skip \<open>ld2\<close>, or \<open>NoSubMatch\<close> (the code falls through).
\<close>

datatype subMatch = MatchWhole pairState | MatchEdges pairState | NoSubMatch

definition charLevel ::
  "DiffCalc \<Rightarrow> document \<Rightarrow> document \<Rightarrow> CompareOptions \<Rightarrow> Word list \<Rightarrow> Word list \<Rightarrow> int \<Rightarrow> int
     \<Rightarrow> diff_seg \<Rightarrow> diff_seg \<Rightarrow> pairState \<Rightarrow> subMatch" where
  "charLevel dc view1 view2 options pLine1 pLine2 lineOff1 lineOff2 ld ld2 st =
     (let off1 = segStart pLine1 ld;
          end1 = segEnd pLine1 ld;
          off2 = segStart pLine2 ld2;
          end2 = segEnd pLine2 ld2;
          sec1 = segChars view1 options pLine1 lineOff1 ld;
          sec2 = segChars view2 options pLine2 lineOff2 ld2;
          diffRes = calcChars dc sec1 sec2;
          sectionDiffs = fst diffRes;
          swapped = snd diffRes;
          pSec1 = (if swapped then sec2 else sec1);
          pSec2 = (if swapped then sec1 else sec2);
          o1 = (if swapped then off2 else off1);
          o2 = (if swapped then off1 else off2);
          e1 = (if swapped then end2 else end1);
          e2 = (if swapped then end1 else end2);
          matchLen = matchLenOf sectionDiffs;
          matchSections = matchSectionsOf sectionDiffs
      in if matchSections \<noteq> 0 then
           (if (matchLen * 100) div int (length pSec1) \<ge> matchPercentThreshold options
            then MatchWhole
                   ((emitResidual swapped pSec1 pSec2 o1 o2 sectionDiffs st)
                      \<lparr>totalLineMatchLen := totalLineMatchLen st + matchLen\<rparr>)
            else
              (let startMatch = startMatchLoop pSec1 pSec2 0;
                   endMatch = endMatchLoop pSec1 pSec2 startMatch 0
               in if startMatch \<noteq> 0 \<or> endMatch \<noteq> 0 then
                    (let c1off = o1 + (if startMatch \<noteq> 0
                                       then ch_pos (pSec1 ! (startMatch - 1)) + 1 else 0);
                         c1len = (if endMatch \<noteq> 0
                                  then ch_pos (pSec1 ! (length pSec1 - endMatch - 1)) + 1 + o1
                                  else e1) - c1off;
                         st1 = (if c1len > 0
                                then (if swapped then addChange2 st \<lparr>s_off = c1off, s_len = c1len\<rparr>
                                      else addChange1 st \<lparr>s_off = c1off, s_len = c1len\<rparr>)
                                else st);
                         c2off = o2 + (if startMatch \<noteq> 0
                                       then ch_pos (pSec2 ! (startMatch - 1)) + 1 else 0);
                         c2len = (if endMatch \<noteq> 0
                                  then ch_pos (pSec2 ! (length pSec2 - endMatch - 1)) + 1 + o2
                                  else e2) - c2off;
                         st2 = (if c2len > 0
                                then (if swapped then addChange1 st1 \<lparr>s_off = c2off, s_len = c2len\<rparr>
                                      else addChange2 st1 \<lparr>s_off = c2off, s_len = c2len\<rparr>)
                                else st1)
                     in MatchEdges (st2\<lparr>totalLineMatchLen :=
                                        totalLineMatchLen st2 + int startMatch + int endMatch\<rparr>))
                  else NoSubMatch))
         else NoSubMatch)"

text \<open>
  The loop of \<open>compareLines\<close> over the word segments \<open>lineDiffs[i..]\<close>. After a char-level
  match the \<open>++i; continue\<close> skips the \<open>IN_2\<close> segment; the \<open>break\<close> ends the loop.
\<close>

function segLoop ::
  "DiffCalc \<Rightarrow> document \<Rightarrow> document \<Rightarrow> CompareOptions \<Rightarrow> Word list \<Rightarrow> Word list \<Rightarrow> int \<Rightarrow> int
     \<Rightarrow> nat \<Rightarrow> diff_seg list \<Rightarrow> pairState \<Rightarrow> pairState" where
  "segLoop dc view1 view2 options pLine1 pLine2 lineOff1 lineOff2 lineDiffsSize [] st = st"
| "segLoop dc view1 view2 options pLine1 pLine2 lineOff1 lineOff2 lineDiffsSize (ld # rest) st =
     (if ds_type ld = DIFF_MATCH then
        segLoop dc view1 view2 options pLine1 pLine2 lineOff1 lineOff2 lineDiffsSize rest
          (st\<lparr>totalLineMatchLen := totalLineMatchLen st +
                 sum_list (map (\<lambda>j. w_len (at pLine1 (ds_off ld + int j))) [0..<nat (ds_len ld)])\<rparr>)
      else if ds_type ld = DIFF_IN_2 then
        segLoop dc view1 view2 options pLine1 pLine2 lineOff1 lineOff2 lineDiffsSize rest
          (addChange2 st (wordSpan pLine2 ld))
      else if charPrecision options \<and> rest \<noteq> [] \<and> ds_type (hd rest) = DIFF_IN_2 then
        (case charLevel dc view1 view2 options pLine1 pLine2 lineOff1 lineOff2 ld (hd rest) st of
           MatchWhole st' \<Rightarrow>
             segLoop dc view1 view2 options pLine1 pLine2 lineOff1 lineOff2 lineDiffsSize (tl rest) st'
         | MatchEdges st' \<Rightarrow>
             segLoop dc view1 view2 options pLine1 pLine2 lineOff1 lineOff2 lineDiffsSize (tl rest) st'
         | NoSubMatch \<Rightarrow>
             if lineDiffsSize = 2 then st
             else segLoop dc view1 view2 options pLine1 pLine2 lineOff1 lineOff2 lineDiffsSize rest
                    (addChange1 st (wordSpan pLine1 ld)))
      else
        segLoop dc view1 view2 options pLine1 pLine2 lineOff1 lineOff2 lineDiffsSize rest
          (addChange1 st (wordSpan pLine1 ld)))"
  by pat_completeness auto

termination
  by (relation "measure (\<lambda>(dc, v1, v2, opts, p1, p2, o1, o2, n, ds, st). length ds)") auto

text \<open>
  One iteration of the loop of \<open>compareLines\<close> over the line mappings, up to the end of
  the loop over the word segments: the flag of the word-level \<open>DiffCalc\<close>, the state, and
  \<open>lineLen1\<close> and \<open>lineLen2\<close>.
\<close>

record pairScan =
  ps_swapped :: bool
  ps_state :: pairState
  ps_lineLen1 :: int
  ps_lineLen2 :: int

definition scanPair ::
  "DiffCalc \<Rightarrow> host \<Rightarrow> DocCmpInfo \<Rightarrow> DocCmpInfo \<Rightarrow> CompareOptions \<Rightarrow> diffInfo \<times> diffInfo \<Rightarrow> int \<Rightarrow> int
     \<Rightarrow> pairScan" where
  "scanPair dc hst doc1' doc2' options bds line1 line2 =
     (let blockDiff1 = fst bds;
          blockDiff2 = snd bds;
          lineWords1 = getLineWords (hst (dc_view doc1'))
                         (l_line (at (dc_lines doc1') (d_off blockDiff1 + line1))) options;
          lineWords2 = getLineWords (hst (dc_view doc2'))
                         (l_line (at (dc_lines doc2') (d_off blockDiff2 + line2))) options;
          wordDiffRes = calcWords dc lineWords1 lineWords2;
          lineDiffs = fst wordDiffRes;
          swapped = snd wordDiffRes;
          pDoc1 = (if swapped then doc2' else doc1');
          pDoc2 = (if swapped then doc1' else doc2');
          pB1 = (if swapped then blockDiff2 else blockDiff1);
          pB2 = (if swapped then blockDiff1 else blockDiff2);
          pLine1 = (if swapped then lineWords2 else lineWords1);
          pLine2 = (if swapped then lineWords1 else lineWords2);
          l1 = (if swapped then line2 else line1);
          l2 = (if swapped then line1 else line2);
          st0 = \<lparr>pBlockDiff1 = emplaceLine pB1 l1, pBlockDiff2 = emplaceLine pB2 l2,
                 totalLineMatchLen = 0\<rparr>;
          lineOff1 = getLineStart (hst (dc_view pDoc1))
                       (l_line (at (dc_lines pDoc1) (l1 + d_off pB1)));
          lineOff2 = getLineStart (hst (dc_view pDoc2))
                       (l_line (at (dc_lines pDoc2) (l2 + d_off pB2)))
      in \<lparr>ps_swapped = swapped,
          ps_state = segLoop dc (hst (dc_view pDoc1)) (hst (dc_view pDoc2)) options pLine1 pLine2
                       lineOff1 lineOff2 (length lineDiffs) lineDiffs st0,
          ps_lineLen1 = sum_list (map w_len pLine1),
          ps_lineLen2 = sum_list (map w_len pLine2)\<rparr>)"

text \<open>
  The whole iteration: the entries of a pair that matches too little are removed again.
  The result is the two blocks in the order of the arguments. The division is the C++
  integer division of non-negative numbers; a pair of lines without any word, where the
  C++ would divide by zero, does not reach \<open>compareLines\<close>.
\<close>

definition comparePair ::
  "DiffCalc \<Rightarrow> host \<Rightarrow> DocCmpInfo \<Rightarrow> DocCmpInfo \<Rightarrow> CompareOptions \<Rightarrow> diffInfo \<times> diffInfo \<Rightarrow> int \<Rightarrow> int
     \<Rightarrow> diffInfo \<times> diffInfo" where
  "comparePair dc hst doc1' doc2' options bds line1 line2 =
     (let r = scanPair dc hst doc1' doc2' options bds line1 line2;
          st = ps_state r;
          st' = (if (totalLineMatchLen st * 100) div max (ps_lineLen1 r) (ps_lineLen2 r)
                      < matchPercentThreshold options
                 then st\<lparr>pBlockDiff1 := popLine (pBlockDiff1 st),
                         pBlockDiff2 := popLine (pBlockDiff2 st)\<rparr>
                 else st)
      in if ps_swapped r then (pBlockDiff2 st', pBlockDiff1 st')
         else (pBlockDiff1 st', pBlockDiff2 st'))"



text \<open>\<open>b'\<close> is \<open>b\<close> with one more entry of \<open>changedLines\<close>, for the line \<open>l\<close>.\<close>

definition extends :: "diffInfo \<Rightarrow> int \<Rightarrow> diffInfo \<Rightarrow> bool" where
  "extends b l b' \<longleftrightarrow>
     (\<exists>cs. b' = b\<lparr>d_info := (d_info b)\<lparr>changedLines :=
                 changedLines (d_info b) @ [\<lparr>dl_line = l, dl_changes = cs\<rparr>]\<rparr>\<rparr>)"

definition st_extends :: "diffInfo \<Rightarrow> int \<Rightarrow> diffInfo \<Rightarrow> int \<Rightarrow> pairState \<Rightarrow> bool" where
  "st_extends b1 l1 b2 l2 st \<longleftrightarrow> extends b1 l1 (pBlockDiff1 st) \<and> extends b2 l2 (pBlockDiff2 st)"







text \<open>
  Two engines for the examples. The first is the answer of an LCS engine for two sequences
  without a common element: all of the first is \<open>IN_1\<close>, all of the second \<open>IN_2\<close>. The
  second is the answer for the lines \<open>ab\<close> and \<open>cb\<close>: one word each, and of the chars only
  the second is common.
\<close>

definition noMatchDiff :: "'a list \<Rightarrow> 'a list \<Rightarrow> diff_seg list \<times> bool" where
  "noMatchDiff a b =
     ([\<lparr>ds_type = DIFF_IN_1, ds_off = 0, ds_len = int (length a)\<rparr>,
       \<lparr>ds_type = DIFF_IN_2, ds_off = 0, ds_len = int (length b)\<rparr>], False)"

definition exNoMatchEngine :: DiffCalc where
  "exNoMatchEngine = \<lparr>calcWords = noMatchDiff, calcChars = noMatchDiff\<rparr>"


text \<open>The line \<open>x\<close> in the main view and the line \<open>y\<close> in the sub view; \<open>ab\<close> and \<open>cb\<close>.\<close>

definition exHostXY :: host where
  "exHostXY = (\<lambda>v. if v = 0 then [[120]] else [[121]])"


definition exDoc1 :: DocCmpInfo where
  "exDoc1 = mkDoc 0 MARKER_MASK_REMOVED [1]"

definition exDoc2 :: DocCmpInfo where
  "exDoc2 = mkDoc 1 MARKER_MASK_ADDED [2]"

definition exBlock1 :: diffInfo where
  "exBlock1 = mkBlock DIFF_IN_1 0 1"

definition exBlock2 :: diffInfo where
  "exBlock2 = mkBlock DIFF_IN_2 0 1"










text \<open>
  An input on which the move detector does not return. With o p q v s r t u o' =
  1 2 3 4 5 6 7 8 9 and four runs of four lines that both documents have in the same
  order (110.., 120.., 130.., 140..), document 1 is
  o p q 110.. o' t u 120.. p q v r 130.. t u v s 140.. and document 2 is
  o' t u v r 110.. o p q v s 120.. 130.. 140..; the four runs are the only longest common
  subsequence. \<open>exLoopState\<close> is the state after the first two moves.
\<close>

definition exCmpLoop :: CompareInfo where
  "exCmpLoop = \<lparr>doc1 = mkDoc 0 MARKER_MASK_REMOVED
                      [1, 2, 3, 110, 111, 112, 113, 9, 7, 8, 120, 121, 122, 123,
                       2, 3, 4, 6, 130, 131, 132, 133, 7, 8, 4, 5, 140, 141, 142, 143],
                  doc2 = mkDoc 1 MARKER_MASK_ADDED
                      [9, 7, 8, 4, 6, 110, 111, 112, 113, 1, 2, 3, 4, 5, 120, 121, 122, 123,
                       130, 131, 132, 133, 140, 141, 142, 143],
                  blockDiffs = [mkBlock DIFF_IN_1 0 3, mkBlock DIFF_IN_2 0 5, mkBlock DIFF_MATCH 3 4,
                                mkBlock DIFF_IN_1 7 3, mkBlock DIFF_IN_2 9 5, mkBlock DIFF_MATCH 10 4,
                                mkBlock DIFF_IN_1 14 4, mkBlock DIFF_MATCH 18 4,
                                mkBlock DIFF_IN_1 22 4, mkBlock DIFF_MATCH 26 4]\<rparr>"

definition exLoop1 :: CompareInfo where
  "exLoop1 = addMove (addMove exCmpLoop 0 0 3) 4 0 3"

definition exLoopState :: CompareInfo where
  "exLoopState = addMove (addMove exLoop1 3 0 3) 1 0 3"

(*VERIFICATION*)

section \<open>Verification: hasher and line extractor\<close>

lemma hashLoop_foldl:
  "hashLoop options line n i h =
     foldl Hash h (filter (\<lambda>c. \<not> (ignoreSpaces options \<and> (c = 32 \<or> c = 9)))
       (map (\<lambda>k. line ! k) [i..<nat n]))"
proof (induction options line n i h rule: hashLoop.induct)
  case (1 options line n i h)
  show ?case
  proof (cases "int i < n")
    case True
    then have up: "[i..<nat n] = i # [i + 1..<nat n]"
      by (simp add: upt_conv_Cons)
    show ?thesis
      using True 1 by (subst hashLoop.simps) (simp add: up del: hashLoop.simps)
  next
    case False
    then show ?thesis by (subst hashLoop.simps) simp
  qed
qed

lemma docText_append: "docText (a @ b) = docText a @ docText b"
  by (simp add: docText_def)

lemma getText_line:
  assumes "i < length d"
  shows "getText d (getLineStart d (int i)) (getLineEnd d (int i)) = d ! i @ [0]"
proof -
  have d: "d = take i d @ (d ! i) # drop (Suc i) d"
    using assms by (simp add: id_take_nth_drop)
  have "docText d = docText (take i d) @ (d ! i @ [10]) @ docText (drop (Suc i) d)"
    by (subst d) (simp add: docText_append, simp add: docText_def)
  then show ?thesis
    using assms by (simp add: getText_def getLineStart_def getLineEnd_def)
qed

lemma map_nth_toLower: "length (toLowerCase l) = length l"
  by (simp add: toLowerCase_def)

lemma newLine_hash:
  assumes "i < length d"
  shows "l_hash (newLine d options (int i)) = foldl Hash cHashSeed (foldedBytes options (d ! i))"
proof -
  let ?raw = "d ! i"
  let ?n = "length ?raw"
  have len: "getLineEnd d (int i) - getLineStart d (int i) = int ?n"
    using assms by (simp add: getLineEnd_def)
  have m1: "map (\<lambda>k. (?raw @ [0]) ! k) [0..<?n] = ?raw"
    by (rule nth_equalityI) (simp_all add: nth_append)
  have m2: "map (\<lambda>k. (toLowerCase (?raw @ [0])) ! k) [0..<?n] = toLowerCase ?raw"
    by (rule nth_equalityI) (simp_all add: toLowerCase_def nth_append)
  show ?thesis
  proof (cases "?n = 0")
    case True
    then show ?thesis
      using len by (simp add: newLine_def foldedBytes_def toLowerCase_def)
  next
    case False
    with len have ne: "getLineEnd d (int i) \<noteq> getLineStart d (int i)"
      by auto
    show ?thesis
      using ne getText_line[OF assms] m1 m2
      by (simp add: newLine_def Let_def hashLoop_foldl foldedBytes_def len del: hashLoop.simps)
  qed
qed


lemma progressCall_never:
  "never_cancels (Some f) \<Longrightarrow> fst (progressCall f) \<and> never_cancels (snd (progressCall f))"
  by (simp add: never_cancels_def progressCall_def)

lemma getLinesLoop_all:
  "never_cancels progress \<Longrightarrow>
   fst (getLinesLoop progress d options sec lineNum acc) =
     acc @ filter (\<lambda>nl. \<not> ignoreEmptyLines options \<or> l_hash nl \<noteq> cHashSeed)
             (map (\<lambda>k. newLine d options (int k + s_off sec)) [lineNum..<nat (s_len sec)])"
proof (induction progress d options sec lineNum acc rule: getLinesLoop.induct)
  case (1 progress d options sec lineNum acc)
  show ?case
  proof (cases "int lineNum < s_len sec")
    case False
    then show ?thesis by (subst getLinesLoop.simps) simp
  next
    case True
    then have up: "[lineNum..<nat (s_len sec)] = lineNum # [lineNum + 1..<nat (s_len sec)]"
      by (simp add: upt_conv_Cons)
    define cancelled where "cancelled =
               (case progress of
                  None \<Rightarrow> (False, progress)
                | Some f \<Rightarrow>
                    (if lineNum mod 500 = 0
                     then (case progressCall f of (ok, pg) \<Rightarrow> (\<not> ok, pg))
                     else (False, progress)))"
    have c: "\<not> fst cancelled \<and> never_cancels (snd cancelled)"
      using "1.prems"
      by (auto simp: cancelled_def never_cancels_def progressCall_def split: option.splits)
    have ih: "fst (getLinesLoop (snd cancelled) d options sec (lineNum + 1) acc') =
          acc' @ filter (\<lambda>nl. \<not> ignoreEmptyLines options \<or> l_hash nl \<noteq> cHashSeed)
             (map (\<lambda>k. newLine d options (int k + s_off sec)) [lineNum + 1..<nat (s_len sec)])"
      if "acc' = (if \<not> ignoreEmptyLines options \<or> l_hash (newLine d options (int lineNum + s_off sec)) \<noteq> cHashSeed
                     then acc @ [newLine d options (int lineNum + s_off sec)] else acc)" for acc'
      using "1.IH"[OF True cancelled_def _ refl] c that by simp
    show ?thesis
      apply (subst getLinesLoop.simps)
      using True c ih[OF refl]
      apply (simp add: up cancelled_def[symmetric] Let_def del: getLinesLoop.simps)
      done
  qed
qed




lemma mask_hi: "(0xFFFFFFFFFFFFFF00 :: uint64) = NOT (mask 8)"
  by (simp add: mask_eq_exp_minus_1 not_eq_complement)

lemma scast_byte:
  "(scast (b :: byte) :: uint64) = (if bit b 7 then ucast b OR 0xFFFFFFFFFFFFFF00 else ucast b)"
  unfolding mask_hi
  by (rule bit_eqI)
     (auto simp: bit_word_scast_iff bit_word_ucast_iff bit_or_iff bit_not_iff bit_mask_iff
           dest: bit_imp_le_length)

lemma Hash_low: "\<not> bit b 7 \<Longrightarrow> Hash hval b = specHash hval b"
  by (simp add: Hash_def specHash_def char_to_uint64_def scast_byte)

lemma foldl_Hash_low:
  "\<forall>b\<in>set bs. \<not> bit b 7 \<Longrightarrow> foldl Hash hval bs = foldl specHash hval bs"
  by (induction bs arbitrary: hval) (simp_all add: Hash_low)

text \<open>
  Claim C4. The hash of a line starts from the seed \<open>0x84222325\<close> and, for each folded
  byte, takes \<open>hval XOR\<close> the byte extended with its sign to 64 bits (the byte is a C++
  \<open>char\<close>, which is signed: a byte from \<open>0x80\<close> on, whose bit 7 is set, counts as
  the byte with the 56 bits above it set) and then
  \<open>hval + (hval<<1) + (hval<<4) + (hval<<5) + (hval<<7) + (hval<<8) + (hval<<40)\<close>
  modulo \<open>2^64\<close>. A line with no folded byte has the seed as its hash, and on a line
  whose folded bytes are all below \<open>0x80\<close> the hash is the one of the formula with the
  plain byte.
\<close>

theorem line_hash_fnv:
  assumes "i < length d"
  shows "l_hash (newLine d options (int i)) =
           foldl (\<lambda>hval b.
                    let h = hval XOR (if bit b 7 then ucast b OR 0xFFFFFFFFFFFFFF00 else ucast b)
                    in h + push_bit 1 h + push_bit 4 h + push_bit 5 h + push_bit 7 h
                       + push_bit 8 h + push_bit 40 h)
                 0x84222325 (foldedBytes options (d ! i))
         \<and> (foldedBytes options (d ! i) = [] \<longrightarrow> l_hash (newLine d options (int i)) = 0x84222325)
         \<and> ((\<forall>b\<in>set (foldedBytes options (d ! i)). \<not> bit b 7) \<longrightarrow>
              l_hash (newLine d options (int i)) =
                foldl specHash 0x84222325 (foldedBytes options (d ! i)))"
proof -
  have "Hash = (\<lambda>hval b.
                    let h = hval XOR (if bit b 7 then ucast b OR 0xFFFFFFFFFFFFFF00 else ucast b)
                    in h + push_bit 1 h + push_bit 4 h + push_bit 5 h + push_bit 7 h
                       + push_bit 8 h + push_bit 40 h)"
    by (intro ext) (simp add: Hash_def Let_def add.assoc char_to_uint64_def scast_byte)
  then show ?thesis
    using newLine_hash[OF assms, of options] foldl_Hash_low[of "foldedBytes options (d ! i)" cHashSeed]
    by (simp add: cHashSeed_def)
qed

theorem line_hash_fnv_witness:
  "l_hash (newLine [[65, 32, 0xE9], [32, 9]] exOptions 0) = 18169028861083972767
   \<and> l_hash (newLine [[65, 32, 0xE9], [32, 9]] exOptions 1) = 0x84222325
   \<and> l_hash (newLine [[65, 32, 98]] exOptions 0) = 277806472090720362
   \<and> foldl specHash 0x84222325 (foldedBytes exOptions [65, 32, 98]) = 277806472090720362"
  using line_hash_fnv [of 0 "[[65, 32, 0xE9], [32, 9]]" exOptions]
        line_hash_fnv [of 1 "[[65, 32, 0xE9], [32, 9]]" exOptions]
        line_hash_fnv [of 0 "[[65, 32, 98]]" exOptions]
  by (simp add: foldedBytes_def toLowerCase_def exOptions_def specHash_def)

text \<open>
  The formula of the specification with the plain byte differs from the code on the line
  that consists of the byte \<open>0x80\<close>.
\<close>

theorem line_hash_fnv_counterexample:
  "l_hash (newLine [[0x80]] exOptions 0) = 15986833232356043871
   \<and> foldl specHash 0x84222325 (foldedBytes exOptions [0x80]) = 2459992205213995359"
  using newLine_hash [of 0 "[[0x80]]" exOptions]
  by (simp add: foldedBytes_def toLowerCase_def exOptions_def specHash_def Hash_def
        char_to_uint64_def cHashSeed_def)

lemma getLines_throws:
  assumes "sciGetLength (hst (dc_view doc)) \<noteq> 0"
    and "sciGetLineCount (hst (dc_view doc)) < s_off (dc_section doc)"
  shows "getLines progress hst doc options = Inl length_error"
  using assms by (auto simp: getLines_def Let_def)

lemma getLines_returns:
  assumes "s_off (dc_section doc) \<le> sciGetLineCount (hst (dc_view doc))"
  shows "\<exists>g. getLines progress hst doc options = Inr g"
  using assms by (auto simp: getLines_def Let_def)

lemma getLines_lines:
  assumes "never_cancels progress"
    and "0 \<le> s_off (dc_section doc)"
    and "sciGetLength (hst (dc_view doc)) \<noteq> 0"
    and "getLines progress hst doc options = Inr g"
  shows "dc_lines (fst g) =
     (let d = hst (dc_view doc);
          off = s_off (dc_section doc);
          len = s_len (dc_section doc);
          len' = (if len \<le> 0 \<or> off + len > int (length d) then int (length d) - off else len);
          lineHash = (\<lambda>i. foldl Hash cHashSeed
                       (filter (\<lambda>c. \<not> (ignoreSpaces options \<and> (c = 32 \<or> c = 9)))
                          (if ignoreCase options then toLowerCase (d ! i) else d ! i)))
      in map (\<lambda>i. \<lparr>l_line = int i, l_hash = lineHash i\<rparr>)
           (filter (\<lambda>i. \<not> (ignoreEmptyLines options \<and> lineHash i = cHashSeed))
              [nat off..<nat (off + len')]))"
proof -
  define d where "d = hst (dc_view doc)"
  define off where "off = s_off (dc_section doc)"
  define len where "len = s_len (dc_section doc)"
  define len' where "len' = (if len \<le> 0 \<or> off + len > int (length d) then int (length d) - off else len)"
  define sec' where "sec' = (dc_section doc)\<lparr>s_len := len'\<rparr>"
  have off0: "0 \<le> off" using assms(2) by (simp add: off_def)
  have bound: "off + len' \<le> int (length d)"
    by (auto simp: len'_def)
  have ge: "getLines progress hst doc options =
              (if len' < 0 then Inl length_error
               else Inr (doc\<lparr>dc_lines := [], dc_section := sec',
                             dc_lines := fst (getLinesLoop progress d options sec' 0 [])\<rparr>,
                         snd (getLinesLoop progress d options sec' 0 [])))"
    using assms(3)
    by (auto simp: getLines_def Let_def d_def sec'_def len'_def off_def len_def sciGetLineCount_def
             simp del: getLinesLoop.simps)
  have gl: "dc_lines (fst g) = fst (getLinesLoop progress d options sec' 0 [])"
  proof (cases "len' < 0")
    case True
    with ge assms(4) show ?thesis by simp
  next
    case False
    with ge assms(4) have "g = (doc\<lparr>dc_lines := [], dc_section := sec',
                             dc_lines := fst (getLinesLoop progress d options sec' 0 [])\<rparr>,
                         snd (getLinesLoop progress d options sec' 0 []))"
      by simp
    then show ?thesis by simp
  qed
  have nl: "newLine d options (int k + off) =
            \<lparr>l_line = int (k + nat off), l_hash = foldl Hash cHashSeed (foldedBytes options (d ! (k + nat off)))\<rparr>"
    if "k < nat len'" for k
  proof -
    have lt: "k + nat off < length d" using that bound off0 by linarith
    have e: "int k + off = int (k + nat off)" using off0 by simp
    have "l_line (newLine d options (int k + off)) = int (k + nat off)"
      by (simp add: newLine_def Let_def e)
    moreover have "l_hash (newLine d options (int k + off)) = foldl Hash cHashSeed (foldedBytes options (d ! (k + nat off)))"
      unfolding e by (rule newLine_hash[OF lt])
    ultimately show ?thesis by (cases "newLine d options (int k + off)") simp
  qed
  have m: "map (\<lambda>k. newLine d options (int k + s_off sec')) [0..<nat (s_len sec')] =
           map (\<lambda>i. \<lparr>l_line = int i, l_hash = foldl Hash cHashSeed (foldedBytes options (d ! i))\<rparr>)
             [nat off..<nat (off + len')]"
  proof (rule nth_equalityI)
    show "length (map (\<lambda>k. newLine d options (int k + s_off sec')) [0..<nat (s_len sec')]) =
       length (map (\<lambda>i. \<lparr>l_line = int i, l_hash = foldl Hash cHashSeed (foldedBytes options (d ! i))\<rparr>)
             [nat off..<nat (off + len')])"
      using off0 by (simp add: sec'_def)
  next
    fix k assume "k < length (map (\<lambda>k. newLine d options (int k + s_off sec')) [0..<nat (s_len sec')])"
    then have k: "k < nat len'" by (simp add: sec'_def)
    then have k2: "k < nat (off + len') - nat off" using off0 by linarith
    show "map (\<lambda>k. newLine d options (int k + s_off sec')) [0..<nat (s_len sec')] ! k =
          map (\<lambda>i. \<lparr>l_line = int i, l_hash = foldl Hash cHashSeed (foldedBytes options (d ! i))\<rparr>)
             [nat off..<nat (off + len')] ! k"
      using k k2 nl[OF k] by (simp add: sec'_def off_def add.commute)
  qed
  show ?thesis
    unfolding gl getLinesLoop_all[OF assms(1)] m
    by (simp add: Let_def d_def[symmetric] off_def[symmetric] len_def[symmetric] len'_def[symmetric]
          foldedBytes_def filter_map o_def)
qed

text \<open>
  Claim C5. On a document that is not empty, with a section that begins at a line of the
  document or right after the last one, the extractor, when the run is not cancelled,
  emits for each line of the (clamped) section in order the pair of the original line
  index and the hash of the line's bytes, where spaces and tabs are left out of the hash
  exactly when \<open>ignoreSpaces\<close> is set; a line is omitted exactly when
  \<open>ignoreEmptyLines\<close> is set and its hash is the seed. With a section that begins
  further behind, the extractor throws \<open>std::length_error\<close> and emits nothing.
\<close>

theorem getLines_emits:
  assumes "never_cancels progress"
    and "0 \<le> s_off (dc_section doc)"
    and "sciGetLength (hst (dc_view doc)) \<noteq> 0"
  shows "if s_off (dc_section doc) \<le> sciGetLineCount (hst (dc_view doc))
         then \<exists>doc' progress'. getLines progress hst doc options = Inr (doc', progress') \<and>
           dc_lines doc' =
             (let d = hst (dc_view doc);
                  off = s_off (dc_section doc);
                  len = s_len (dc_section doc);
                  len' = (if len \<le> 0 \<or> off + len > int (length d) then int (length d) - off else len);
                  lineHash = (\<lambda>i. foldl Hash cHashSeed
                               (filter (\<lambda>c. \<not> (ignoreSpaces options \<and> (c = 32 \<or> c = 9)))
                                  (if ignoreCase options then toLowerCase (d ! i) else d ! i)))
              in map (\<lambda>i. \<lparr>l_line = int i, l_hash = lineHash i\<rparr>)
                   (filter (\<lambda>i. \<not> (ignoreEmptyLines options \<and> lineHash i = cHashSeed))
                      [nat off..<nat (off + len')]))
         else getLines progress hst doc options = Inl length_error"
proof (cases "s_off (dc_section doc) \<le> sciGetLineCount (hst (dc_view doc))")
  case True
  from getLines_returns[where doc = doc and hst = hst and progress = progress and options = options]
    True
  obtain g where g: "getLines progress hst doc options = Inr g"
    by blast
  obtain doc' progress' where dp: "g = (doc', progress')" by (cases g)
  from getLines_lines[OF assms g] show ?thesis
    using True g dp by simp
next
  case False
  then show ?thesis
    using getLines_throws[where doc = doc and hst = hst and progress = progress and options = options]
      assms(3)
    by simp
qed

theorem getLines_emits_witness:
  "(\<exists>doc' progress'.
      getLines None (\<lambda>v. [[65, 32, 98], [], [32, 9], [67]]) exDoc exOptions = Inr (doc', progress') \<and>
      dc_lines doc' =
        [\<lparr>l_line = 0, l_hash = 277806472090720362\<rparr>, \<lparr>l_line = 3, l_hash = 2459887751609315314\<rparr>])
   \<and> getLines None (\<lambda>v. [[65, 32, 98], [], [32, 9], [67]])
        (exDoc\<lparr>dc_section := \<lparr>s_off = 5, s_len = 1\<rparr>\<rparr>) exOptions = Inl length_error"
proof -
  let ?h = "\<lambda>v::int. [[65, 32, 98], [], [32, 9], [67 :: byte]]"
  from getLines_emits [of None exDoc ?h exOptions]
  obtain doc' progress' where "getLines None ?h exDoc exOptions = Inr (doc', progress')"
    and "dc_lines doc' =
        [\<lparr>l_line = 0, l_hash = 277806472090720362\<rparr>, \<lparr>l_line = 3, l_hash = 2459887751609315314\<rparr>]"
    by (auto simp: never_cancels_def exDoc_def exOptions_def sciGetLength_def sciGetLineCount_def
          docText_def toLowerCase_def Hash_def char_to_uint64_def cHashSeed_def)
  moreover
  from getLines_emits [of None "exDoc\<lparr>dc_section := \<lparr>s_off = 5, s_len = 1\<rparr>\<rparr>" ?h exOptions]
  have "getLines None ?h (exDoc\<lparr>dc_section := \<lparr>s_off = 5, s_len = 1\<rparr>\<rparr>) exOptions
          = Inl length_error"
    by (simp add: never_cancels_def exDoc_def sciGetLength_def sciGetLineCount_def docText_def)
  ultimately show ?thesis by blast
qed

section \<open>Verification: find-unique mode\<close>

lemma keys_emplace: "fst ` set (umap_emplace m h l) = insert h (fst ` set m)"
  by (induction m h l rule: umap_emplace.induct) auto

lemma distinct_emplace: "distinct (map fst m) \<Longrightarrow> distinct (map fst (umap_emplace m h l))"
  by (induction m h l rule: umap_emplace.induct) (auto simp: keys_emplace)

lemma nonempty_emplace: "\<forall>kv\<in>set m. snd kv \<noteq> [] \<Longrightarrow> \<forall>kv\<in>set (umap_emplace m h l). snd kv \<noteq> []"
  by (induction m h l rule: umap_emplace.induct) auto

lemma foldl_emplace:
  "distinct (map fst m) \<Longrightarrow> \<forall>kv\<in>set m. snd kv \<noteq> [] \<Longrightarrow>
   (let r = foldl (\<lambda>m line. umap_emplace m (l_hash line) (l_line line)) m ls
    in fst ` set r = fst ` set m \<union> l_hash ` set ls \<and> distinct (map fst r) \<and> (\<forall>kv\<in>set r. snd kv \<noteq> []))"
proof (induction ls arbitrary: m)
  case Nil
  then show ?case by simp
next
  case (Cons a ls)
  show ?case
    using Cons.IH[OF distinct_emplace[OF Cons.prems(1)] nonempty_emplace[OF Cons.prems(2)], of "l_hash a" "l_line a"]
    by (simp add: Let_def keys_emplace)
qed

lemma buildLinesMap_props:
  "fst ` set (buildLinesMap ls) = l_hash ` set ls"
  "distinct (map fst (buildLinesMap ls))"
  "\<forall>kv\<in>set (buildLinesMap ls). snd kv \<noteq> []"
  using foldl_emplace[of "[]" ls] by (simp_all add: buildLinesMap_def Let_def)

lemma umap_find_iff: "umap_find m h \<longleftrightarrow> h \<in> fst ` set m"
  by (simp add: umap_find_def map_of_eq_None_iff)

lemma keys_erase: "fst ` set (umap_erase m h) = fst ` set m - {h}"
  by (auto simp: umap_erase_def)

lemma uniqueLoop_props:
  "distinct (map fst m1) \<Longrightarrow> \<forall>kv\<in>set m1. snd kv \<noteq> [] \<Longrightarrow>
   (case uniqueLoop m1 m2 cnt marked of (m2', cnt', marked') \<Rightarrow>
      cnt \<le> cnt' \<and> (cnt' = cnt \<longleftrightarrow> fst ` set m1 \<subseteq> fst ` set m2)
      \<and> fst ` set m2' = fst ` set m2 - fst ` set m1)"
proof (induction m1 m2 cnt marked rule: uniqueLoop.induct)
  case (1 m2 cnt marked)
  then show ?case by simp
next
  case (2 h ls rest m2 cnt marked)
  have d: "distinct (map fst rest)" and ne: "\<forall>kv\<in>set rest. snd kv \<noteq> []"
    and hn: "h \<notin> fst ` set rest" and ls: "ls \<noteq> []"
    using 2(3,4) by auto
  show ?case
  proof (cases "umap_find m2 h")
    case True
    obtain m2' cnt' marked' where r: "uniqueLoop rest (umap_erase m2 h) cnt marked = (m2', cnt', marked')"
      by (cases "uniqueLoop rest (umap_erase m2 h) cnt marked") auto
    have ih: "cnt \<le> cnt'" "cnt' = cnt \<longleftrightarrow> fst ` set rest \<subseteq> fst ` set m2 - {h}"
      "fst ` set m2' = fst ` set m2 - {h} - fst ` set rest"
      using "2.IH"(1)[OF True d ne] r by (simp_all add: keys_erase)
    have hin: "h \<in> fst ` set m2" using True by (simp add: umap_find_iff)
    have a: "fst ` set rest \<subseteq> fst ` set m2 - {h} \<longleftrightarrow> insert h (fst ` set rest) \<subseteq> fst ` set m2"
      using hn hin by blast
    have b: "fst ` set m2 - {h} - fst ` set rest = fst ` set m2 - insert h (fst ` set rest)"
      by blast
    have "cnt \<le> cnt' \<and> (cnt' = cnt \<longleftrightarrow> insert h (fst ` set rest) \<subseteq> fst ` set m2)
          \<and> fst ` set m2' = fst ` set m2 - insert h (fst ` set rest)"
      using ih a b by metis
    then show ?thesis
      using True r by simp
  next
    case False
    obtain m2' cnt' marked' where r: "uniqueLoop rest m2 (cnt + int (length ls)) (marked @ ls) = (m2', cnt', marked')"
      by (cases "uniqueLoop rest m2 (cnt + int (length ls)) (marked @ ls)") auto
    have ih: "cnt + int (length ls) \<le> cnt'"
      "fst ` set m2' = fst ` set m2 - fst ` set rest"
      using "2.IH"(2)[OF False d ne] r by simp_all
    have pos: "0 < int (length ls)" using ls by simp
    have hnin: "h \<notin> fst ` set m2" using False by (simp add: umap_find_iff)
    have b: "fst ` set m2 - fst ` set rest = fst ` set m2 - insert h (fst ` set rest)"
      using hnin by blast
    have "cnt \<le> cnt' \<and> (cnt' = cnt \<longleftrightarrow> insert h (fst ` set rest) \<subseteq> fst ` set m2)
          \<and> fst ` set m2' = fst ` set m2 - insert h (fst ` set rest)"
    proof (intro conjI)
      show "cnt \<le> cnt'" using ih(1) pos by linarith
      have "cnt' \<noteq> cnt" using ih(1) pos by linarith
      moreover have "\<not> insert h (fst ` set rest) \<subseteq> fst ` set m2" using hnin by blast
      ultimately show "cnt' = cnt \<longleftrightarrow> insert h (fst ` set rest) \<subseteq> fst ` set m2" by blast
      show "fst ` set m2' = fst ` set m2 - insert h (fst ` set rest)"
        using ih(2) b by (rule trans)
    qed
    then show ?thesis
      using False r by simp
  qed
qed


lemma getLinesLoop_never:
  "never_cancels progress \<Longrightarrow>
   never_cancels (snd (getLinesLoop progress d options sec lineNum acc))"
proof (induction progress d options sec lineNum acc rule: getLinesLoop.induct)
  case (1 progress d options sec lineNum acc)
  show ?case
  proof (cases "int lineNum < s_len sec")
    case False
    then show ?thesis using "1.prems" by (subst getLinesLoop.simps) simp
  next
    case True
    define cancelled where "cancelled =
               (case progress of
                  None \<Rightarrow> (False, progress)
                | Some f \<Rightarrow>
                    (if lineNum mod 500 = 0
                     then (case progressCall f of (ok, pg) \<Rightarrow> (\<not> ok, pg))
                     else (False, progress)))"
    have c: "\<not> fst cancelled \<and> never_cancels (snd cancelled)"
      using "1.prems"
      by (auto simp: cancelled_def never_cancels_def progressCall_def split: option.splits)
    have ih: "never_cancels (snd (getLinesLoop (snd cancelled) d options sec (lineNum + 1) acc'))"
      if "acc' = (if \<not> ignoreEmptyLines options \<or> l_hash (newLine d options (int lineNum + s_off sec)) \<noteq> cHashSeed
                     then acc @ [newLine d options (int lineNum + s_off sec)] else acc)" for acc'
      using "1.IH"[OF True cancelled_def _ refl] c that by simp
    show ?thesis
      apply (subst getLinesLoop.simps)
      using True c ih[OF refl]
      apply (simp add: cancelled_def[symmetric] Let_def del: getLinesLoop.simps)
      done
  qed
qed

lemma getLines_never:
  "never_cancels progress \<Longrightarrow> getLines progress hst doc options = Inr g \<Longrightarrow>
   never_cancels (snd g)"
  by (auto simp: getLines_def Let_def getLinesLoop_never split: if_splits
           simp del: getLinesLoop.simps)

lemma getLines_indep:
  assumes "never_cancels progress" "dc_view doc = dc_view doc'" "dc_section doc = dc_section doc'"
    and "getLines progress hst doc options = Inr g"
  shows "\<exists>g'. getLines None hst doc' options = Inr g' \<and> dc_lines (fst g') = dc_lines (fst g)"
proof -
  have n: "never_cancels None" by (simp add: never_cancels_def)
  show ?thesis
    using assms(2,3,4)
    by (auto simp: getLines_def Let_def getLinesLoop_all[OF assms(1)] getLinesLoop_all[OF n]
          split: if_splits simp del: getLinesLoop.simps)
qed

lemma NextPhase_never:
  "never_cancels pg \<Longrightarrow> fst (NextPhase pg) \<and> never_cancels (snd (NextPhase pg))"
  by (auto simp: NextPhase_def never_cancels_def progressCall_def split: option.splits)

lemma normalizedLines_eq:
  assumes "never_cancels progress" "dc_view doc = v"
    "dc_section doc = dc_section (initDoc options v MARKER_MASK_ADDED)"
    and "getLines progress hst doc options = Inr g"
  shows "dc_lines (fst g) = normalizedLines hst options v"
proof -
  have e: "dc_view doc = dc_view (initDoc options v MARKER_MASK_ADDED)"
    using assms(2) by (simp add: initDoc_def)
  from getLines_indep[OF assms(1) e assms(3,4)]
  obtain g' where "getLines None hst (initDoc options v MARKER_MASK_ADDED) options = Inr g'"
    and "dc_lines (fst g') = dc_lines (fst g)"
    by blast
  then show ?thesis by (simp add: normalizedLines_def)
qed

text \<open>
  Claim C10. When the run is not cancelled and the sections of both views lie inside
  their documents, \<open>runFindUnique\<close> returns, and it returns \<open>COMPARE_MATCH\<close> exactly
  when the set of normalized line hashes of document 1 equals the set of normalized line
  hashes of document 2; how often a hash occurs plays no role.
\<close>

theorem runFindUnique_match:
  assumes "never_cancels progress"
    and "sectionInside hst options MAIN_VIEW"
    and "sectionInside hst options SUB_VIEW"
  shows "\<exists>r. runFindUnique progress hst options = Inr r \<and>
           ((fst r = COMPARE_MATCH) =
            (l_hash ` set (normalizedLines hst options MAIN_VIEW) =
             l_hash ` set (normalizedLines hst options SUB_VIEW)))"
proof -
  define doc1 where "doc1 = initDoc options MAIN_VIEW
                   (if oldFileViewId options = MAIN_VIEW then MARKER_MASK_REMOVED else MARKER_MASK_ADDED)"
  define doc2 where "doc2 = initDoc options SUB_VIEW
                   (if oldFileViewId options = MAIN_VIEW then MARKER_MASK_ADDED else MARKER_MASK_REMOVED)"
  have v1: "dc_view doc1 = MAIN_VIEW"
    "dc_section doc1 = dc_section (initDoc options MAIN_VIEW MARKER_MASK_ADDED)"
    by (simp_all add: doc1_def initDoc_def)
  have v2: "dc_view doc2 = SUB_VIEW"
    "dc_section doc2 = dc_section (initDoc options SUB_VIEW MARKER_MASK_ADDED)"
    by (simp_all add: doc2_def initDoc_def)
  have "s_off (dc_section doc1) \<le> sciGetLineCount (hst (dc_view doc1))"
    using assms(2) by (simp add: sectionInside_def v1)
  from getLines_returns[where doc = doc1 and hst = hst and progress = progress and options = options] this
  obtain g1 where g1: "getLines progress hst doc1 options = Inr g1" by blast
  define p1 where "p1 = NextPhase (snd g1)"
  have n1: "never_cancels (snd g1)" by (rule getLines_never[OF assms(1) g1])
  have q1: "fst p1" "never_cancels (snd p1)" using NextPhase_never[OF n1] by (simp_all add: p1_def)
  have "s_off (dc_section doc2) \<le> sciGetLineCount (hst (dc_view doc2))"
    using assms(3) by (simp add: sectionInside_def v2)
  from getLines_returns[where doc = doc2 and hst = hst and progress = "snd p1" and options = options] this
  obtain g2 where g2: "getLines (snd p1) hst doc2 options = Inr g2" by blast
  define p2 where "p2 = NextPhase (snd g2)"
  define p3 where "p3 = NextPhase (snd p2)"
  define p4 where "p4 = NextPhase (snd p3)"
  define m1 where "m1 = buildLinesMap (dc_lines (fst g1))"
  define m2 where "m2 = buildLinesMap (dc_lines (fst g2))"
  have n2: "never_cancels (snd g2)" by (rule getLines_never[OF q1(2) g2])
  have q2: "fst p2" "never_cancels (snd p2)" using NextPhase_never[OF n2] by (simp_all add: p2_def)
  have q3: "fst p3" "never_cancels (snd p3)" using NextPhase_never[OF q2(2)] by (simp_all add: p3_def)
  have q4: "fst p4" using NextPhase_never[OF q3(2)] by (simp_all add: p4_def)
  have l1: "dc_lines (fst g1) = normalizedLines hst options MAIN_VIEW"
    by (rule normalizedLines_eq[OF assms(1) v1 g1])
  have l2: "dc_lines (fst g2) = normalizedLines hst options SUB_VIEW"
    by (rule normalizedLines_eq[OF q1(2) v2 g2])
  obtain r c mk where u: "uniqueLoop m1 m2 0 [] = (r, c, mk)"
    by (cases "uniqueLoop m1 m2 0 []") auto
  have props: "0 \<le> c" "c = 0 \<longleftrightarrow> fst ` set m1 \<subseteq> fst ` set m2"
      "fst ` set r = fst ` set m2 - fst ` set m1"
    using uniqueLoop_props[where ?m1.0 = m1 and ?m2.0 = m2 and cnt = 0 and marked = "[]"] u buildLinesMap_props(2,3)[of "dc_lines (fst g1)"]
    by (simp_all add: m1_def)
  have res: "\<exists>x. runFindUnique progress hst options = Inr x \<and>
             fst x = (if c = 0 \<and> r = [] then COMPARE_MATCH else COMPARE_MISMATCH)"
    unfolding runFindUnique_def doc1_def[symmetric] doc2_def[symmetric] Let_def g1 sum.case
      p1_def[symmetric]
    using q1(1)
    unfolding g2 sum.case p2_def[symmetric]
      p3_def[symmetric] p4_def[symmetric] m1_def[symmetric] m2_def[symmetric]
    using q2(1) q3(1) q4 u by simp
  have k1: "fst ` set m1 = l_hash ` set (normalizedLines hst options MAIN_VIEW)"
    by (simp add: m1_def buildLinesMap_props(1) l1)
  have k2: "fst ` set m2 = l_hash ` set (normalizedLines hst options SUB_VIEW)"
    by (simp add: m2_def buildLinesMap_props(1) l2)
  have "r = [] \<longleftrightarrow> fst ` set m2 \<subseteq> fst ` set m1"
  proof -
    have "r = [] \<longleftrightarrow> fst ` set r = {}" by simp
    then show ?thesis using props(3) by (simp add: Diff_eq_empty_iff)
  qed
  then have eq: "(c = 0 \<and> r = []) \<longleftrightarrow> fst ` set m1 = fst ` set m2"
    using props(2) by blast
  from res obtain x where x: "runFindUnique progress hst options = Inr x"
    "fst x = (if c = 0 \<and> r = [] then COMPARE_MATCH else COMPARE_MISMATCH)"
    by blast
  have "(fst x = COMPARE_MATCH) = (c = 0 \<and> r = [])"
    using x(2) by simp
  then have "(fst x = COMPARE_MATCH) =
             (l_hash ` set (normalizedLines hst options MAIN_VIEW) =
              l_hash ` set (normalizedLines hst options SUB_VIEW))"
    unfolding eq k1 k2 .
  with x(1) show ?thesis by blast
qed

lemma exHostUnique_lines:
  "map l_hash (normalizedLines exHostUnique exOptions MAIN_VIEW)
       = [2459885552586058892, 2459885552586058892, 2459888851120943525]"
  "map l_hash (normalizedLines exHostUnique exOptions SUB_VIEW)
       = [2459888851120943525, 2459885552586058892]"
proof -
  have n: "never_cancels None" by (simp add: never_cancels_def)
  have r: "\<exists>g. getLines None exHostUnique (initDoc exOptions v MARKER_MASK_ADDED) exOptions = Inr g"
    if "v = 0 \<or> v = 1" for v
    using that
    by (intro getLines_returns)
       (auto simp: initDoc_def exOptions_def exHostUnique_def sciGetLineCount_def)
  from r[of MAIN_VIEW] obtain g1 where
    g1: "getLines None exHostUnique (initDoc exOptions MAIN_VIEW MARKER_MASK_ADDED) exOptions = Inr g1"
    by (auto simp: MAIN_VIEW_def)
  from r[of SUB_VIEW] obtain g2 where
    g2: "getLines None exHostUnique (initDoc exOptions SUB_VIEW MARKER_MASK_ADDED) exOptions = Inr g2"
    by (auto simp: SUB_VIEW_def)
  have "normalizedLines exHostUnique exOptions MAIN_VIEW = dc_lines (fst g1)"
    by (simp add: normalizedLines_def g1)
  moreover have "map l_hash (dc_lines (fst g1)) = [2459885552586058892, 2459885552586058892, 2459888851120943525]"
    using getLines_lines[OF n _ _ g1]
    by (simp add: initDoc_def exHostUnique_def exOptions_def
         MAIN_VIEW_def sciGetLength_def docText_def toLowerCase_def Hash_def char_to_uint64_def cHashSeed_def)
  ultimately show "map l_hash (normalizedLines exHostUnique exOptions MAIN_VIEW)
       = [2459885552586058892, 2459885552586058892, 2459888851120943525]"
    by simp
  have "normalizedLines exHostUnique exOptions SUB_VIEW = dc_lines (fst g2)"
    by (simp add: normalizedLines_def g2)
  moreover have "map l_hash (dc_lines (fst g2)) = [2459888851120943525, 2459885552586058892]"
    using getLines_lines[OF n _ _ g2]
    by (simp add: initDoc_def exHostUnique_def exOptions_def
         SUB_VIEW_def sciGetLength_def docText_def toLowerCase_def Hash_def char_to_uint64_def cHashSeed_def)
  ultimately show "map l_hash (normalizedLines exHostUnique exOptions SUB_VIEW)
       = [2459888851120943525, 2459885552586058892]"
    by simp
qed

theorem runFindUnique_match_witness:
  "(\<exists>r. runFindUnique None exHostUnique exOptions = Inr r \<and> fst r = COMPARE_MATCH)
   \<and> sectionInside exHostUnique exOptions MAIN_VIEW
   \<and> sectionInside exHostUnique exOptions SUB_VIEW
   \<and> map l_hash (normalizedLines exHostUnique exOptions MAIN_VIEW)
       = [2459885552586058892, 2459885552586058892, 2459888851120943525]
   \<and> map l_hash (normalizedLines exHostUnique exOptions SUB_VIEW)
       = [2459888851120943525, 2459885552586058892]"
proof -
  have n: "never_cancels None" by (simp add: never_cancels_def)
  have i1: "sectionInside exHostUnique exOptions MAIN_VIEW"
    and i2: "sectionInside exHostUnique exOptions SUB_VIEW"
    by (simp_all add: sectionInside_def initDoc_def exOptions_def sciGetLineCount_def)
  have "l_hash ` set (normalizedLines exHostUnique exOptions MAIN_VIEW) =
        l_hash ` set (normalizedLines exHostUnique exOptions SUB_VIEW)"
    unfolding set_map[symmetric] exHostUnique_lines by auto
  then show ?thesis
    using runFindUnique_match [OF n i1 i2] i1 i2 exHostUnique_lines by auto
qed

section \<open>Verification: best match of the move detector\<close>

lemma lookBack_props:
  "lookBack ll ml ld md mlu ls ms = (ls', ms') \<Longrightarrow>
     ls' \<le> ls \<and> ls - ls' = ms - ms' \<and> (-1 \<le> ls \<longrightarrow> -1 \<le> ls') \<and> (mlu - 1 \<le> ms \<longrightarrow> mlu - 1 \<le> ms')"
proof (induction ll ml ld md mlu ls ms rule: lookBack.induct)
  case (1 ll ml ld md mlu ls ms)
  show ?case
  proof (cases "ls \<ge> 0 \<and> ms \<ge> mlu \<and> lineAt ll (d_off ld + ls) = lineAt ml (d_off md + ms) \<and>
         movedSection (moves (d_info ld)) ls = 0")
    case True
    then have "lookBack ll ml ld md mlu (ls - 1) (ms - 1) = (ls', ms')"
      using "1.prems" by (subst (asm) lookBack.simps) (simp del: lookBack.simps)
    from "1.IH"[OF True this] True show ?thesis by auto
  next
    case False
    then have "ls' = ls \<and> ms' = ms"
      using "1.prems" by (subst (asm) lookBack.simps) (auto simp del: lookBack.simps)
    then show ?thesis by simp
  qed
qed

lemma lookAhead_props:
  "lookAhead ll ml ld md le me = (le', me') \<Longrightarrow>
     le \<le> le' \<and> le' - le = me' - me \<and> (le \<le> d_len ld \<longrightarrow> le' \<le> d_len ld) \<and> (me \<le> d_len md \<longrightarrow> me' \<le> d_len md)"
proof (induction ll ml ld md le me rule: lookAhead.induct)
  case (1 ll ml ld md le me)
  show ?case
  proof (cases "le < d_len ld \<and> me < d_len md \<and> lineAt ll (d_off ld + le) = lineAt ml (d_off md + me) \<and>
         movedSection (moves (d_info ld)) le = 0 \<and> movedSection (moves (d_info md)) me = 0")
    case True
    then have "lookAhead ll ml ld md (le + 1) (me + 1) = (le', me')"
      using "1.prems" by (subst (asm) lookAhead.simps) (simp del: lookAhead.simps)
    from "1.IH"[OF True this] True show ?thesis by auto
  next
    case False
    then have "le' = le \<and> me' = me"
      using "1.prems" by (subst (asm) lookAhead.simps) (auto simp del: lookAhead.simps)
    then show ?thesis by simp
  qed
qed

lemma candidateAt_props:
  assumes "c = candidateAt ll ml ld lo k md mo mlu"
  shows "c_diff c = k" "c_lookupStart c \<le> lo" "lo < c_lookupStart c + c_len c" "1 \<le> c_len c"
    "lo - c_lookupStart c = mo - c_matchStart c"
    "0 \<le> lo \<Longrightarrow> 0 \<le> c_lookupStart c"
    "lo < d_len ld \<Longrightarrow> c_lookupStart c + c_len c \<le> d_len ld"
    "mlu \<le> mo \<Longrightarrow> mlu \<le> c_matchStart c"
    "mo < d_len md \<Longrightarrow> c_matchStart c + c_len c \<le> d_len md"
proof -
  obtain ls ms where b: "lookBack ll ml ld md mlu (lo - 1) (mo - 1) = (ls, ms)"
    by (cases "lookBack ll ml ld md mlu (lo - 1) (mo - 1)") auto
  obtain le me where a: "lookAhead ll ml ld md (lo + 1) (mo + 1) = (le, me)"
    by (cases "lookAhead ll ml ld md (lo + 1) (mo + 1)") auto
  have c: "c = \<lparr>c_diff = k, c_lookupStart = ls + 1, c_matchStart = ms + 1, c_len = le - (ls + 1)\<rparr>"
    using assms a b by (simp add: candidateAt_def Let_def)
  note pb = lookBack_props[OF b] and pa = lookAhead_props[OF a]
  show "c_diff c = k" by (simp add: c)
  show "c_lookupStart c \<le> lo" using pb by (simp add: c)
  show "lo < c_lookupStart c + c_len c" using pa by (simp add: c)
  show "1 \<le> c_len c" using pa pb by (simp add: c)
  show "lo - c_lookupStart c = mo - c_matchStart c" using pb by (simp add: c)
  show "0 \<le> lo \<Longrightarrow> 0 \<le> c_lookupStart c" using pb by (simp add: c)
  show "lo < d_len ld \<Longrightarrow> c_lookupStart c + c_len c \<le> d_len ld" using pa by (simp add: c)
  show "mlu \<le> mo \<Longrightarrow> mlu \<le> c_matchStart c" using pb by (simp add: c)
  show "mo < d_len md \<Longrightarrow> c_matchStart c + c_len c \<le> d_len md" using pa pb by (simp add: c)
qed

lemma blockCandidates_ok:
  "0 \<le> mlu \<Longrightarrow> mlu \<le> mo \<Longrightarrow>
   \<forall>c\<in>set (blockCandidates ll ml ld lo k md mo mlu). cand_ok ld lo k md c"
proof (induction ll ml ld lo k md mo mlu rule: blockCandidates.induct)
  case (1 ll ml ld lo k md mo mlu)
  show ?case
  proof (cases "mo < d_len md")
    case False
    then show ?thesis by (subst blockCandidates.simps) (simp del: blockCandidates.simps)
  next
    case lt: True
    show ?thesis
    proof (cases "lineAt ll (d_off ld + lo) \<noteq> lineAt ml (d_off md + mo)")
      case True
      have "\<forall>c\<in>set (blockCandidates ll ml ld lo k md (mo + 1) mlu). cand_ok ld lo k md c"
        using "1.IH"(1)[OF lt True] "1.prems" by simp
      then show ?thesis using lt True by (subst blockCandidates.simps) (simp del: blockCandidates.simps)
    next
      case eq: False
      show ?thesis
      proof (cases "getNextUnmoved (moves (d_info md)) mo")
        case (Some n)
        have "mo < n" using Some by (rule getNextUnmoved_gt)
        then have "\<forall>c\<in>set (blockCandidates ll ml ld lo k md n n). cand_ok ld lo k md c"
          using "1.IH"(3)[OF lt eq Some] "1.prems" by simp
        then show ?thesis using lt eq Some by (subst blockCandidates.simps) (simp del: blockCandidates.simps)
      next
        case None
        have r: "\<forall>c\<in>set (blockCandidates ll ml ld lo k md (mo + 1) mlu). cand_ok ld lo k md c"
          using "1.IH"(2)[OF lt eq None] "1.prems" by simp
        note p = candidateAt_props[OF refl, where ll=ll and ml=ml and ld=ld and lo=lo and k=k
                   and md=md and mo=mo and mlu=mlu]
        have "0 \<le> c_matchStart (candidateAt ll ml ld lo k md mo mlu)"
          using p(8) "1.prems" by linarith
        then have "cand_ok ld lo k md (candidateAt ll ml ld lo k md mo mlu)"
          unfolding cand_ok_def using p(1,2,3,4,6,7) p(9)[OF lt] by blast
        then show ?thesis using lt eq None r by (subst blockCandidates.simps) (simp del: blockCandidates.simps)
      qed
    qed
  qed
qed

lemma scanBlock_foldl:
  "scanBlock ll ml ld lo k md mo mlu st = foldl considerCandidate st (blockCandidates ll ml ld lo k md mo mlu)"
proof (induction ll ml ld lo k md mo mlu st rule: scanBlock.induct)
  case (1 ll ml ld lo k md mo mlu st)
  show ?case
  proof (cases "mo < d_len md")
    case False
    then show ?thesis by (subst scanBlock.simps, subst blockCandidates.simps) (simp del: scanBlock.simps blockCandidates.simps)
  next
    case lt: True
    show ?thesis
    proof (cases "lineAt ll (d_off ld + lo) \<noteq> lineAt ml (d_off md + mo)")
      case True
      show ?thesis using "1.IH"(1)[OF lt True] lt True
        by (subst scanBlock.simps, subst blockCandidates.simps) (simp del: scanBlock.simps blockCandidates.simps)
    next
      case eq: False
      show ?thesis
      proof (cases "getNextUnmoved (moves (d_info md)) mo")
        case (Some n)
        show ?thesis using "1.IH"(3)[OF lt eq Some] lt eq Some
          by (subst scanBlock.simps, subst blockCandidates.simps) (simp del: scanBlock.simps blockCandidates.simps)
      next
        case None
        show ?thesis using "1.IH"(2)[OF lt eq None] lt eq None
          by (subst scanBlock.simps, subst blockCandidates.simps) (simp del: scanBlock.simps blockCandidates.simps)
      qed
    qed
  qed
qed

lemma good_consider: "good_st st \<Longrightarrow> 1 \<le> c_len c \<Longrightarrow> good_st (considerCandidate st c)"
  by (simp add: good_st_def considerCandidate_def Let_def)

lemma good_foldl:
  "good_st st \<Longrightarrow> \<forall>c\<in>set cs. 1 \<le> c_len c \<Longrightarrow> good_st (foldl considerCandidate st cs)"
  by (induction cs arbitrary: st) (simp_all add: good_consider)

lemma foldl_skip:
  "good_st st \<Longrightarrow> \<forall>c\<in>set cs. 1 \<le> c_len c \<and> c_len c < snd st \<Longrightarrow>
   foldl considerCandidate st cs = st"
proof (induction cs arbitrary: st)
  case Nil
  then show ?case by simp
next
  case (Cons c cs)
  have "1 \<le> c_len c" "c_len c < snd st" using Cons.prems(2) by simp_all
  moreover have "snd st = max 1 (matchLen (fst st))" using Cons.prems(1) by (simp add: good_st_def)
  ultimately have "c_len c < matchLen (fst st)" by linarith
  then have "considerCandidate st c = st"
    by (simp add: considerCandidate_def Let_def)
  then show ?case using Cons by simp
qed

lemma cand_ok_len: "cand_ok ld lo k md c \<Longrightarrow> 1 \<le> c_len c \<and> c_len c \<le> d_len md"
  unfolding cand_ok_def by linarith

lemma blockCandidates_len:
  "c \<in> set (blockCandidates ll ml ld lo k md 0 0) \<Longrightarrow> 1 \<le> c_len c \<and> c_len c \<le> d_len md"
  using blockCandidates_ok[of 0 0 ll ml ld lo k md] cand_ok_len by blast

lemma allCandidates_len:
  "c \<in> set (allCandidates ll ml mt ld lo bs k) \<Longrightarrow> 1 \<le> c_len c"
proof (induction bs arbitrary: k)
  case Nil
  then show ?case by simp
next
  case (Cons md rest)
  from Cons.prems have "(d_type md = mt \<and> c \<in> set (blockCandidates ll ml ld lo k md 0 0))
      \<or> c \<in> set (allCandidates ll ml mt ld lo rest (k + 1))"
    by (simp del: blockCandidates.simps split: if_splits)
  then show ?case
    using blockCandidates_len Cons.IH by blast
qed

lemma scanBlocks_foldl:
  "good_st st \<Longrightarrow>
   scanBlocks ll ml mt ld lo bs k st = foldl considerCandidate st (allCandidates ll ml mt ld lo bs k)"
proof (induction bs arbitrary: k st)
  case Nil
  then show ?case by simp
next
  case (Cons md rest)
  show ?case
  proof (cases "d_type md \<noteq> mt")
    case True
    then show ?thesis using Cons.IH[OF Cons.prems]
      by (simp del: scanBlock.simps blockCandidates.simps)
  next
    case same: False
    show ?thesis
    proof (cases "d_len md < snd st")
      case True
      have "\<forall>c\<in>set (blockCandidates ll ml ld lo k md 0 0). 1 \<le> c_len c \<and> c_len c < snd st"
        using blockCandidates_len[of _ ll ml ld lo k md] True by fastforce
      from foldl_skip[OF Cons.prems this] show ?thesis
        using same True Cons.IH[OF Cons.prems]
        by (simp del: scanBlock.simps blockCandidates.simps)
    next
      case False
      have g: "good_st (foldl considerCandidate st (blockCandidates ll ml ld lo k md 0 0))"
        using good_foldl[OF Cons.prems] blockCandidates_len[of _ ll ml ld lo k md] by blast
      show ?thesis
        using same False Cons.IH[OF g]
        by (simp add: scanBlock_foldl del: scanBlock.simps blockCandidates.simps)
    qed
  qed
qed

lemma findBestMatch_foldl:
  "findBestMatch cmpInfo ld lo = fst (foldl considerCandidate (mi_init, 1) (candidates cmpInfo ld lo))"
proof -
  have g: "good_st (mi_init, 1)" by (simp add: good_st_def mi_init_def)
  show ?thesis
    unfolding findBestMatch_def candidates_def Let_def mi_init_def[symmetric]
    by (simp add: scanBlocks_foldl[OF g] del: scanBlocks.simps allCandidates.simps)
qed

lemma candidates_len: "c \<in> set (candidates cmpInfo ld lo) \<Longrightarrow> 1 \<le> c_len c"
  unfolding candidates_def using allCandidates_len by (auto split: if_splits)

lemma best_specI:
  assumes "\<And>c. c \<in> set cs \<Longrightarrow> c_len c \<le> matchLen mi"
    and "cs = [] \<Longrightarrow> matchLen mi = 0"
    and "filter (\<lambda>c. c_len c = matchLen mi) cs = best"
    and "cs \<noteq> [] \<Longrightarrow> best \<noteq> []"
    and "matchDiff mi \<noteq> None \<longleftrightarrow> length best = 1"
    and "\<And>c. best = [c] \<Longrightarrow> matchDiff mi = Some (c_diff c) \<and> lookupOff mi = c_lookupStart c
                  \<and> matchOff mi = c_matchStart c"
  shows "best_spec cs mi"
  unfolding best_spec_def Let_def assms(3)
  using assms(1,2,4,5,6) by blast

lemma best_specD:
  assumes "best_spec cs mi"
  shows "\<And>c. c \<in> set cs \<Longrightarrow> c_len c \<le> matchLen mi"
    and "cs = [] \<Longrightarrow> matchLen mi = 0"
    and "cs \<noteq> [] \<Longrightarrow> filter (\<lambda>c. c_len c = matchLen mi) cs \<noteq> []"
    and "matchDiff mi \<noteq> None \<longleftrightarrow> length (filter (\<lambda>c. c_len c = matchLen mi) cs) = 1"
    and "\<And>c. filter (\<lambda>c. c_len c = matchLen mi) cs = [c] \<Longrightarrow>
            matchDiff mi = Some (c_diff c) \<and> lookupOff mi = c_lookupStart c
                  \<and> matchOff mi = c_matchStart c"
  using assms unfolding best_spec_def Let_def by blast+

text \<open>The state after a prefix of the candidates.\<close>

lemma foldl_best:
  assumes "\<And>c. c \<in> set cs \<Longrightarrow> 1 \<le> c_len c"
  shows "best_spec cs (fst (foldl considerCandidate (mi_init, 1) cs))"
  using assms
proof (induction cs rule: rev_induct)
  case Nil
  show ?case
    by (rule best_specI[where best = "[]"]) (simp_all add: mi_init_def)
next
  case (snoc c cs)
  define st where "st = foldl considerCandidate (mi_init, 1) cs"
  define mi where "mi = fst st"
  define best where "best = filter (\<lambda>c. c_len c = matchLen mi) cs"
  have "best_spec cs mi"
    unfolding mi_def st_def using snoc.prems by (intro snoc.IH) simp
  note ih = best_specD[OF this, folded best_def]
  have c1: "1 \<le> c_len c" using snoc.prems by simp
  have step: "foldl considerCandidate (mi_init, 1) (cs @ [c]) = considerCandidate st c"
    by (simp add: st_def)
  consider (gt) "matchLen mi < c_len c" | (eq) "matchLen mi = c_len c" | (lt) "c_len c < matchLen mi"
    by linarith
  then show ?case
  proof cases
    case gt
    have mi': "fst (considerCandidate st c) = \<lparr>lookupOff = c_lookupStart c, matchDiff = Some (c_diff c),
                 matchOff = c_matchStart c, matchLen = c_len c\<rparr>"
      using gt by (simp add: considerCandidate_def Let_def mi_def)
    have "c_len x \<noteq> c_len c" if "x \<in> set cs" for x
      using ih(1)[OF that] gt by linarith
    then have f: "filter (\<lambda>x. c_len x = c_len c) cs = []"
      by (simp add: filter_empty_conv)
    show ?thesis
      unfolding step mi'
    proof (rule best_specI[where best = "[c]"])
      fix x assume "x \<in> set (cs @ [c])"
      then have "x \<in> set cs \<or> x = c" by auto
      then show "c_len x \<le> matchLen \<lparr>lookupOff = c_lookupStart c, matchDiff = Some (c_diff c),
                 matchOff = c_matchStart c, matchLen = c_len c\<rparr>"
        using ih(1) gt by fastforce
    qed (simp_all add: f)
  next
    case eq
    have mi': "fst (considerCandidate st c) = mi\<lparr>matchDiff := None\<rparr>"
      using eq by (simp add: considerCandidate_def Let_def mi_def)
    have ne: "cs \<noteq> []" using ih(2) eq c1 by fastforce
    then have bne: "best \<noteq> []" using ih(3) by simp
    have f: "filter (\<lambda>x. c_len x = matchLen mi) (cs @ [c]) = best @ [c]"
      using eq by (simp add: best_def)
    have l2: "length (best @ [c]) \<noteq> 1" using bne by (cases best) simp_all
    have nsing: "best @ [c] \<noteq> [x]" for x using bne by (cases best) simp_all
    show ?thesis
      unfolding step mi'
    proof (rule best_specI[where best = "best @ [c]"])
      fix x assume "x \<in> set (cs @ [c])"
      then have "x \<in> set cs \<or> x = c" by auto
      then show "c_len x \<le> matchLen (mi\<lparr>matchDiff := None\<rparr>)"
        using ih(1) eq by fastforce
    next
      show "filter (\<lambda>c. c_len c = matchLen (mi\<lparr>matchDiff := None\<rparr>)) (cs @ [c]) = best @ [c]"
        using f by simp
    next
      show "(matchDiff (mi\<lparr>matchDiff := None\<rparr>) \<noteq> None) = (length (best @ [c]) = 1)"
        using l2 by simp
    next
      fix x assume "best @ [c] = [x]"
      then show "matchDiff (mi\<lparr>matchDiff := None\<rparr>) = Some (c_diff x) \<and>
          lookupOff (mi\<lparr>matchDiff := None\<rparr>) = c_lookupStart x \<and>
          matchOff (mi\<lparr>matchDiff := None\<rparr>) = c_matchStart x"
        using nsing by blast
    qed simp_all
  next
    case lt
    have mi': "fst (considerCandidate st c) = mi"
      using lt by (simp add: considerCandidate_def Let_def mi_def)
    have ne: "cs \<noteq> []" using ih(2) lt c1 by fastforce
    have f: "filter (\<lambda>x. c_len x = matchLen mi) (cs @ [c]) = best"
      using lt by (simp add: best_def)
    show ?thesis
      unfolding step mi'
    proof (rule best_specI[where best = best])
      fix x assume "x \<in> set (cs @ [c])"
      then have "x \<in> set cs \<or> x = c" by auto
      then show "c_len x \<le> matchLen mi"
        using ih(1) lt by fastforce
    next
      show "filter (\<lambda>c. c_len c = matchLen mi) (cs @ [c]) = best" by (rule f)
    next
      show "cs @ [c] \<noteq> [] \<Longrightarrow> best \<noteq> []" using ih(3) ne by simp
    next
      show "(matchDiff mi \<noteq> None) = (length best = 1)" by (rule ih(4))
    next
      fix x assume "best = [x]"
      then show "matchDiff mi = Some (c_diff x) \<and> lookupOff mi = c_lookupStart x \<and>
          matchOff mi = c_matchStart x"
        by (rule ih(5))
    qed simp
  qed
qed

text \<open>
  Claim C1. \<open>findBestMatch\<close> is the left fold of the update rule over all candidate runs
  in scan order (skipping blocks shorter than the best length loses nothing): a candidate
  replaces the best only when strictly longer, one of equal length resets \<open>matchDiff\<close>.
  Every candidate has length at least 1; the result's length is the largest candidate
  length; \<open>matchDiff\<close> is set exactly when a single candidate has that length, and two
  candidates of that length in different blocks leave it null.
\<close>

theorem findBestMatch_longest_unique:
  "let cs = candidates cmpInfo lookupDiff lookupOff';
       mi = findBestMatch cmpInfo lookupDiff lookupOff';
       best = filter (\<lambda>c. c_len c = matchLen mi) cs
   in mi = fst (foldl considerCandidate (mi_init, 1) cs) \<and>
      (\<forall>c\<in>set cs. 1 \<le> c_len c \<and> c_len c \<le> matchLen mi) \<and>
      (cs \<noteq> [] \<longrightarrow> best \<noteq> []) \<and>
      (matchDiff mi \<noteq> None \<longleftrightarrow> length best = 1) \<and>
      (\<forall>c. best = [c] \<longrightarrow> matchDiff mi = Some (c_diff c) \<and> lookupOff mi = c_lookupStart c
               \<and> matchOff mi = c_matchStart c) \<and>
      (\<forall>c\<in>set best. \<forall>c'\<in>set best. c_diff c \<noteq> c_diff c' \<longrightarrow> matchDiff mi = None) \<and>
      (matchDiff mi \<noteq> None \<longrightarrow> 1 \<le> matchLen mi)"
proof -
  define cs where "cs = candidates cmpInfo lookupDiff lookupOff'"
  define mi where "mi = findBestMatch cmpInfo lookupDiff lookupOff'"
  define best where "best = filter (\<lambda>c. c_len c = matchLen mi) cs"
  have len: "1 \<le> c_len c" if "c \<in> set cs" for c
    using that candidates_len unfolding cs_def by blast
  have fold: "mi = fst (foldl considerCandidate (mi_init, 1) cs)"
    unfolding mi_def cs_def by (rule findBestMatch_foldl)
  have "best_spec cs mi"
    unfolding fold using len by (rule foldl_best)
  note b = best_specD[OF this, folded best_def]
  have p2: "\<forall>c\<in>set cs. 1 \<le> c_len c \<and> c_len c \<le> matchLen mi"
    using len b(1) by blast
  have p6: "\<forall>c\<in>set best. \<forall>c'\<in>set best. c_diff c \<noteq> c_diff c' \<longrightarrow> matchDiff mi = None"
  proof (intro ballI impI)
    fix c c' assume c: "c \<in> set best" "c' \<in> set best" "c_diff c \<noteq> c_diff c'"
    have "length best \<noteq> 1"
    proof
      assume "length best = 1"
      then obtain x where "best = [x]" by (cases best) simp_all
      then show False using c by simp
    qed
    then show "matchDiff mi = None" using b(4) by blast
  qed
  have p7: "matchDiff mi \<noteq> None \<longrightarrow> 1 \<le> matchLen mi"
  proof
    assume "matchDiff mi \<noteq> None"
    then have "length best = 1" using b(4) by blast
    then obtain x where x: "best = [x]" by (cases best) simp_all
    then have "x \<in> set best" by simp
    then have "x \<in> set cs" "c_len x = matchLen mi" by (simp_all add: best_def)
    then show "1 \<le> matchLen mi" using len by fastforce
  qed
  have "mi = fst (foldl considerCandidate (mi_init, 1) cs) \<and>
      (\<forall>c\<in>set cs. 1 \<le> c_len c \<and> c_len c \<le> matchLen mi) \<and>
      (cs \<noteq> [] \<longrightarrow> best \<noteq> []) \<and>
      (matchDiff mi \<noteq> None \<longleftrightarrow> length best = 1) \<and>
      (\<forall>c. best = [c] \<longrightarrow> matchDiff mi = Some (c_diff c) \<and> lookupOff mi = c_lookupStart c
               \<and> matchOff mi = c_matchStart c) \<and>
      (\<forall>c\<in>set best. \<forall>c'\<in>set best. c_diff c \<noteq> c_diff c' \<longrightarrow> matchDiff mi = None) \<and>
      (matchDiff mi \<noteq> None \<longrightarrow> 1 \<le> matchLen mi)"
    using fold p2 b(3) b(4) b(5) p6 p7 by blast
  then show ?thesis
    unfolding Let_def cs_def mi_def best_def .
qed

lemma exCmpTie_candidates:
  "candidates exCmpTie (blockDiffs exCmpTie ! 0) 0 =
     [\<lparr>c_diff = 2, c_lookupStart = 0, c_matchStart = 0, c_len = 1\<rparr>,
      \<lparr>c_diff = 4, c_lookupStart = 0, c_matchStart = 0, c_len = 1\<rparr>]"
  by code_simp

lemma exCmpTie_len: "matchLen (findBestMatch exCmpTie (blockDiffs exCmpTie ! 0) 0) = 1"
  by code_simp

theorem findBestMatch_longest_unique_witness:
  "map c_diff (candidates exCmpTie (blockDiffs exCmpTie ! 0) 0) = [2, 4] \<and>
   matchLen (findBestMatch exCmpTie (blockDiffs exCmpTie ! 0) 0) = 1 \<and>
   matchDiff (findBestMatch exCmpTie (blockDiffs exCmpTie ! 0) 0) = None"
  using findBestMatch_longest_unique [of exCmpTie "blockDiffs exCmpTie ! 0" 0]
  unfolding Let_def exCmpTie_candidates exCmpTie_len
  by (simp add: considerCandidate_def mi_init_def)

section \<open>Verification: the moves lists after the move detector\<close>

lemma allCandidates_ok:
  "c \<in> set (allCandidates ll ml mt ld lo bs k0) \<Longrightarrow>
   k0 \<le> c_diff c \<and> c_diff c < k0 + length bs \<and> cand_ok ld lo (c_diff c) (bs ! (c_diff c - k0)) c"
proof (induction bs arbitrary: k0)
  case Nil
  then show ?case by simp
next
  case (Cons md rest)
  from Cons.prems have "(d_type md = mt \<and> c \<in> set (blockCandidates ll ml ld lo k0 md 0 0))
      \<or> c \<in> set (allCandidates ll ml mt ld lo rest (k0 + 1))"
    by (simp del: blockCandidates.simps split: if_splits)
  then show ?case
  proof
    assume "d_type md = mt \<and> c \<in> set (blockCandidates ll ml ld lo k0 md 0 0)"
    then have ok: "cand_ok ld lo k0 md c"
      using blockCandidates_ok[of 0 0 ll ml ld lo k0 md] by simp
    then have "c_diff c = k0" by (simp add: cand_ok_def)
    then show ?thesis using ok by simp
  next
    assume "c \<in> set (allCandidates ll ml mt ld lo rest (k0 + 1))"
    from Cons.IH[OF this]
    have a: "k0 + 1 \<le> c_diff c" "c_diff c < k0 + 1 + length rest"
      "cand_ok ld lo (c_diff c) (rest ! (c_diff c - (k0 + 1))) c" by simp_all
    have "(md # rest) ! (c_diff c - k0) = rest ! (c_diff c - (k0 + 1))"
      using a(1) by (simp add: nth_Cons')
    then show ?thesis using a by simp
  qed
qed

lemma candidates_ok:
  "c \<in> set (candidates cmpInfo ld lo) \<Longrightarrow>
   c_diff c < length (blockDiffs cmpInfo) \<and> cand_ok ld lo (c_diff c) (blockDiffs cmpInfo ! c_diff c) c"
  unfolding candidates_def using allCandidates_ok[where ?k0.0 = 0]
  by (fastforce split: if_splits)

lemma findBestMatch_ok:
  assumes "0 \<le> lo" "lo < d_len ld"
  shows "mi_ok cmpInfo ld lo (findBestMatch cmpInfo ld lo)"
  unfolding mi_ok_def
proof (intro allI impI)
  fix k
  define cs where "cs = candidates cmpInfo ld lo"
  define mi where "mi = findBestMatch cmpInfo ld lo"
  assume "matchDiff (findBestMatch cmpInfo ld lo) = Some k"
  then have some: "matchDiff mi = Some k" by (simp add: mi_def)
  have fold: "mi = fst (foldl considerCandidate (mi_init, 1) cs)"
    unfolding mi_def cs_def by (rule findBestMatch_foldl)
  have "best_spec cs mi"
    unfolding fold using candidates_len unfolding cs_def by (intro foldl_best) blast
  note b = best_specD[OF this]
  have "length (filter (\<lambda>c. c_len c = matchLen mi) cs) = 1" using b(4) some by simp
  then obtain c where c: "filter (\<lambda>c. c_len c = matchLen mi) cs = [c]"
    by (cases "filter (\<lambda>c. c_len c = matchLen mi) cs") simp_all
  have "c \<in> set (filter (\<lambda>c. c_len c = matchLen mi) cs)" unfolding c by simp
  then have cin: "c \<in> set cs" and clen: "c_len c = matchLen mi" by simp_all
  have eqs: "k = c_diff c" "lookupOff mi = c_lookupStart c" "matchOff mi = c_matchStart c"
    using b(5)[OF c] some by simp_all
  have ok: "c_diff c < length (blockDiffs cmpInfo)" "cand_ok ld lo (c_diff c) (blockDiffs cmpInfo ! c_diff c) c"
    using candidates_ok cin unfolding cs_def by blast+
  show "k < length (blockDiffs cmpInfo) \<and> 1 \<le> matchLen (findBestMatch cmpInfo ld lo) \<and>
        lookupOff (findBestMatch cmpInfo ld lo) \<le> lo \<and>
        lo < lookupOff (findBestMatch cmpInfo ld lo) + matchLen (findBestMatch cmpInfo ld lo) \<and>
        0 \<le> lookupOff (findBestMatch cmpInfo ld lo) \<and>
        lookupOff (findBestMatch cmpInfo ld lo) + matchLen (findBestMatch cmpInfo ld lo) \<le> d_len ld \<and>
        0 \<le> matchOff (findBestMatch cmpInfo ld lo) \<and>
        matchOff (findBestMatch cmpInfo ld lo) + matchLen (findBestMatch cmpInfo ld lo)
          \<le> d_len (blockDiffs cmpInfo ! k)"
    unfolding mi_def[symmetric] eqs clen[symmetric]
    using ok assms unfolding cand_ok_def by simp
qed

lemma addMove_lens: "map d_len (blockDiffs (addMove cmpInfo k off len)) = map d_len (blockDiffs cmpInfo)"
proof (cases "k < length (blockDiffs cmpInfo)")
  case True
  then have "(map d_len (blockDiffs cmpInfo))[k := d_len (blockDiffs cmpInfo ! k)] =
             map d_len (blockDiffs cmpInfo)"
    by (metis list_update_id nth_map)
  then show ?thesis by (simp add: addMove_def map_update)
next
  case False
  then show ?thesis by (simp add: addMove_def list_update_beyond)
qed

lemma list_all_update: "list_all P xs \<Longrightarrow> P y \<Longrightarrow> list_all P (xs[k := y])"
  by (induction xs arbitrary: k) (simp_all split: nat.splits)

lemma move_ok_len: "d_len b' = d_len b \<Longrightarrow> move_ok b' = move_ok b"
  by (intro ext) (simp add: move_ok_def)

lemma addMove_in_range:
  assumes "all_in_range cmpInfo" "k < length (blockDiffs cmpInfo)"
    and "move_ok (blockDiffs cmpInfo ! k) \<lparr>s_off = off, s_len = len\<rparr>"
  shows "all_in_range (addMove cmpInfo k off len)"
proof -
  have "moves_in_range (blockDiffs cmpInfo ! k)"
    using assms(1,2) by (simp add: all_in_range_def list_all_length)
  moreover have "move_ok ((blockDiffs cmpInfo ! k)
          \<lparr>d_info := (d_info (blockDiffs cmpInfo ! k))
             \<lparr>moves := moves (d_info (blockDiffs cmpInfo ! k)) @ [\<lparr>s_off = off, s_len = len\<rparr>]\<rparr>\<rparr>)
        = move_ok (blockDiffs cmpInfo ! k)"
    by (rule move_ok_len) simp
  ultimately have "moves_in_range ((blockDiffs cmpInfo ! k)
          \<lparr>d_info := (d_info (blockDiffs cmpInfo ! k))
             \<lparr>moves := moves (d_info (blockDiffs cmpInfo ! k)) @ [\<lparr>s_off = off, s_len = len\<rparr>]\<rparr>\<rparr>)"
    using assms(3) by (simp add: moves_in_range_def)
  then show ?thesis
    using assms(1) unfolding all_in_range_def addMove_def by (simp add: list_all_update)
qed

lemma lens_nth:
  "map d_len (blockDiffs c') = map d_len (blockDiffs c) \<Longrightarrow> k < length (blockDiffs c) \<Longrightarrow>
   d_len (blockDiffs c' ! k) = d_len (blockDiffs c ! k)"
  by (metis length_map nth_map)

lemma lens_length:
  "map d_len (blockDiffs c') = map d_len (blockDiffs c) \<Longrightarrow> length (blockDiffs c') = length (blockDiffs c)"
  by (metis length_map)

lemma resolveMatch_inv:
  "resolveMatch fuel cmpInfo li lo mi = Some (ret, cmpInfo', mi') \<Longrightarrow> all_in_range cmpInfo \<Longrightarrow>
   li < length (blockDiffs cmpInfo) \<Longrightarrow> mi_ok cmpInfo (blockDiffs cmpInfo ! li) lo mi \<Longrightarrow>
   all_in_range cmpInfo' \<and> map d_len (blockDiffs cmpInfo') = map d_len (blockDiffs cmpInfo) \<and>
   (mi' = mi \<or> mi' = mi\<lparr>matchLen := 0\<rparr>) \<and> (ret \<longrightarrow> matchDiff mi \<noteq> None)"
proof (induction fuel arbitrary: cmpInfo li lo mi ret cmpInfo' mi')
  case 0
  then show ?case by simp
next
  case (Suc fuel)
  show ?case
  proof (cases "matchDiff mi")
    case None
    then show ?thesis using Suc.prems by simp
  next
    case (Some mk)
    define lo2 where "lo2 = matchOff mi + (lo - lookupOff mi)"
    define rmi where "rmi = findBestMatch cmpInfo (blockDiffs cmpInfo ! mk) lo2"
    have m: "mk < length (blockDiffs cmpInfo)" "1 \<le> matchLen mi"
        "lookupOff mi \<le> lo" "lo < lookupOff mi + matchLen mi"
        "0 \<le> lookupOff mi" "lookupOff mi + matchLen mi \<le> d_len (blockDiffs cmpInfo ! li)"
        "0 \<le> matchOff mi" "matchOff mi + matchLen mi \<le> d_len (blockDiffs cmpInfo ! mk)"
      using Suc.prems(4) Some unfolding mi_ok_def by blast+
    have lo2: "0 \<le> lo2" "lo2 < d_len (blockDiffs cmpInfo ! mk)"
      using m by (simp_all add: lo2_def)
    have rok: "mi_ok cmpInfo (blockDiffs cmpInfo ! mk) lo2 rmi"
      unfolding rmi_def by (rule findBestMatch_ok[OF lo2])
    have eq: "resolveMatch (Suc fuel) cmpInfo li lo mi =
       (if matchDiff rmi = Some li
        then Some (True, addMove (addMove cmpInfo li (lookupOff mi) (matchLen mi))
                           mk (matchOff mi) (matchLen mi), mi)
        else if matchDiff rmi \<noteq> None
        then (case resolveMatch fuel cmpInfo mk lo2 rmi of
                None \<Rightarrow> None
              | Some (ret, cmpInfo', mi') \<Rightarrow> Some (ret, cmpInfo', mi\<lparr>matchLen := 0\<rparr>))
        else Some (False, cmpInfo, mi))"
      using Some by (simp add: Let_def lo2_def rmi_def)
    consider (commit) "matchDiff rmi = Some li"
      | (recurse) "matchDiff rmi \<noteq> Some li" "matchDiff rmi \<noteq> None"
      | (none) "matchDiff rmi = None" by blast
    then show ?thesis
    proof cases
      case commit
      define c1 where "c1 = addMove cmpInfo li (lookupOff mi) (matchLen mi)"
      have res: "ret = True" "cmpInfo' = addMove c1 mk (matchOff mi) (matchLen mi)" "mi' = mi"
        using Suc.prems(1) commit unfolding eq c1_def by auto
      have r1: "all_in_range c1"
        unfolding c1_def using Suc.prems(2,3) m
        by (intro addMove_in_range) (simp_all add: move_ok_def)
      have l1: "map d_len (blockDiffs c1) = map d_len (blockDiffs cmpInfo)"
        unfolding c1_def by (rule addMove_lens)
      have mk1: "mk < length (blockDiffs c1)" using m(1) lens_length[OF l1] by simp
      have d1: "d_len (blockDiffs c1 ! mk) = d_len (blockDiffs cmpInfo ! mk)"
        using lens_nth[OF l1 m(1)] .
      have r2: "all_in_range cmpInfo'"
        unfolding res(2) using r1 mk1 m d1
        by (intro addMove_in_range) (simp_all add: move_ok_def)
      have l2: "map d_len (blockDiffs cmpInfo') = map d_len (blockDiffs cmpInfo)"
        unfolding res(2) using addMove_lens l1 by simp
      show ?thesis using r2 l2 res Some by simp
    next
      case recurse
      obtain r c m' where rec: "resolveMatch fuel cmpInfo mk lo2 rmi = Some (r, c, m')"
        using Suc.prems(1) recurse unfolding eq by (auto split: option.splits)
      have res: "ret = r" "cmpInfo' = c" "mi' = mi\<lparr>matchLen := 0\<rparr>"
        using Suc.prems(1) recurse rec unfolding eq by auto
      from Suc.IH[OF rec Suc.prems(2) m(1) rok]
      show ?thesis using res Some by simp
    next
      case none
      have "ret = False" "cmpInfo' = cmpInfo" "mi' = mi"
        using Suc.prems(1) none unfolding eq by auto
      then show ?thesis using Suc.prems(2) by simp
    qed
  qed
qed

lemma lookupLoop_inv:
  "lookupLoop fuel cmpInfo k lookupEi repeat = Some (cmpInfo', repeat') \<Longrightarrow> all_in_range cmpInfo \<Longrightarrow>
   k < length (blockDiffs cmpInfo) \<Longrightarrow> 0 \<le> lookupEi \<Longrightarrow>
   all_in_range cmpInfo' \<and> map d_len (blockDiffs cmpInfo') = map d_len (blockDiffs cmpInfo)"
proof (induction fuel arbitrary: cmpInfo lookupEi repeat)
  case 0
  then show ?case by simp
next
  case (Suc fuel)
  define ld where "ld = blockDiffs cmpInfo ! k"
  show ?case
  proof (cases "lookupEi < d_len ld")
    case False
    then show ?thesis using Suc.prems by (simp add: ld_def Let_def)
  next
    case lt: True
    show ?thesis
    proof (cases "getNextUnmoved (moves (d_info ld)) lookupEi")
      case (Some n)
      have "lookupLoop fuel cmpInfo k n repeat = Some (cmpInfo', repeat')"
        using Suc.prems(1) lt Some by (simp add: ld_def Let_def)
      moreover have "0 \<le> n" using getNextUnmoved_gt[OF Some] Suc.prems(4) by linarith
      ultimately show ?thesis using Suc.IH Suc.prems(2,3) by blast
    next
      case None
      define mi where "mi = findBestMatch cmpInfo ld lookupEi"
      have ok: "mi_ok cmpInfo (blockDiffs cmpInfo ! k) lookupEi mi"
        unfolding mi_def ld_def[symmetric] using Suc.prems(4) lt by (intro findBestMatch_ok)
      obtain ret c1 mi1 where rm: "resolveMatch fuel cmpInfo k lookupEi mi = Some (ret, c1, mi1)"
        using Suc.prems(1) lt None
        by (cases "resolveMatch fuel cmpInfo k lookupEi mi")
           (auto simp: ld_def[symmetric] mi_def[symmetric] Let_def)
      note r = resolveMatch_inv[OF rm Suc.prems(2,3) ok]
      have r1: "all_in_range c1" and l1: "map d_len (blockDiffs c1) = map d_len (blockDiffs cmpInfo)"
        using r by simp_all
      have k1: "k < length (blockDiffs c1)" using lens_length[OF l1] Suc.prems(3) by simp
      have next_eq: "lookupLoop (Suc fuel) cmpInfo k lookupEi repeat =
          (if ret then
             (if matchLen mi1 \<noteq> 0
              then lookupLoop fuel c1 k (lookupOff mi1 + matchLen mi1) True
              else lookupLoop fuel c1 k lookupEi True)
           else lookupLoop fuel c1 k (lookupEi + 1) repeat)"
        using lt None rm by (simp add: ld_def[symmetric] mi_def[symmetric] Let_def)
      consider (a) "ret" "matchLen mi1 \<noteq> 0" | (b) "ret" "matchLen mi1 = 0" | (c) "\<not> ret" by blast
      then have "all_in_range cmpInfo' \<and> map d_len (blockDiffs cmpInfo') = map d_len (blockDiffs c1)"
      proof cases
        case a
        have "mi1 = mi" using r a(2) by auto
        moreover have "matchDiff mi \<noteq> None" using r a(1) by simp
        ultimately have "0 \<le> lookupOff mi1 + matchLen mi1"
          using ok unfolding mi_ok_def by fastforce
        moreover have "lookupLoop fuel c1 k (lookupOff mi1 + matchLen mi1) True = Some (cmpInfo', repeat')"
          using Suc.prems(1) a unfolding next_eq by simp
        ultimately show ?thesis using Suc.IH r1 k1 by blast
      next
        case b
        have "lookupLoop fuel c1 k lookupEi True = Some (cmpInfo', repeat')"
          using Suc.prems(1) b unfolding next_eq by simp
        then show ?thesis using Suc.IH r1 k1 Suc.prems(4) by blast
      next
        case c
        have "lookupLoop fuel c1 k (lookupEi + 1) repeat = Some (cmpInfo', repeat')"
          using Suc.prems(1) c unfolding next_eq by simp
        moreover have "0 \<le> lookupEi + 1" using Suc.prems(4) by simp
        ultimately show ?thesis using Suc.IH r1 k1 by blast
      qed
      then show ?thesis using l1 by simp
    qed
  qed
qed

lemma blocksLoop_inv:
  "blocksLoop fuel cmpInfo k repeat = Some (cmpInfo', repeat') \<Longrightarrow> all_in_range cmpInfo \<Longrightarrow>
   all_in_range cmpInfo' \<and> map d_len (blockDiffs cmpInfo') = map d_len (blockDiffs cmpInfo)"
proof (induction fuel arbitrary: cmpInfo k repeat)
  case 0
  then show ?case by simp
next
  case (Suc fuel)
  show ?case
  proof (cases "k < length (blockDiffs cmpInfo)")
    case False
    then show ?thesis using Suc.prems by simp
  next
    case lt: True
    show ?thesis
    proof (cases "d_type (blockDiffs cmpInfo ! k) \<noteq> DIFF_IN_1")
      case True
      then have "blocksLoop fuel cmpInfo (k + 1) repeat = Some (cmpInfo', repeat')"
        using Suc.prems(1) lt by simp
      then show ?thesis using Suc.IH Suc.prems(2) by blast
    next
      case False
      obtain c1 r1 where ll: "lookupLoop fuel cmpInfo k 0 repeat = Some (c1, r1)"
        using Suc.prems(1) lt False by (cases "lookupLoop fuel cmpInfo k 0 repeat") auto
      have i1: "all_in_range c1" "map d_len (blockDiffs c1) = map d_len (blockDiffs cmpInfo)"
        using lookupLoop_inv[OF ll Suc.prems(2) lt] by simp_all
      have "blocksLoop fuel c1 (k + 1) r1 = Some (cmpInfo', repeat')"
        using Suc.prems(1) lt False ll by simp
      from Suc.IH[OF this i1(1)] show ?thesis using i1(2) by simp
    qed
  qed
qed

lemma findMoves_inv:
  "findMoves fuel cmpInfo = Some cmpInfo' \<Longrightarrow> all_in_range cmpInfo \<Longrightarrow>
   all_in_range cmpInfo' \<and> map d_len (blockDiffs cmpInfo') = map d_len (blockDiffs cmpInfo)"
proof (induction fuel arbitrary: cmpInfo)
  case 0
  then show ?case by simp
next
  case (Suc fuel)
  obtain c1 r1 where bl: "blocksLoop fuel cmpInfo 0 False = Some (c1, r1)"
    using Suc.prems(1) by (cases "blocksLoop fuel cmpInfo 0 False") auto
  have i1: "all_in_range c1" "map d_len (blockDiffs c1) = map d_len (blockDiffs cmpInfo)"
    using blocksLoop_inv[OF bl Suc.prems(2)] by simp_all
  show ?case
  proof (cases r1)
    case True
    then have "findMoves fuel c1 = Some cmpInfo'" using Suc.prems(1) bl by simp
    from Suc.IH[OF this i1(1)] show ?thesis using i1(2) by simp
  next
    case False
    then have "cmpInfo' = c1" using Suc.prems(1) bl by simp
    then show ?thesis using i1 by simp
  qed
qed

lemma resolveMatch_mono:
  "resolveMatch n cmpInfo li off mi = Some r \<Longrightarrow> resolveMatch (Suc n) cmpInfo li off mi = Some r"
proof (induction n arbitrary: cmpInfo li off mi r)
  case 0
  then show ?case by simp
next
  case (Suc n)
  show ?case
  proof (cases "matchDiff mi")
    case None
    with Suc.prems show ?thesis by simp
  next
    case (Some mk)
    define off2 where "off2 = matchOff mi + (off - lookupOff mi)"
    define rev where "rev = findBestMatch cmpInfo (blockDiffs cmpInfo ! mk) off2"
    show ?thesis
    proof (cases "matchDiff rev = Some li \<or> matchDiff rev = None")
      case True
      with Suc.prems Some show ?thesis
        by (auto simp: Let_def off2_def rev_def)
    next
      case False
      with Suc.prems Some obtain x where
        x: "resolveMatch n cmpInfo mk off2 rev = Some x"
        by (cases "resolveMatch n cmpInfo mk off2 rev") (auto simp: Let_def off2_def rev_def)
      from Suc.IH[OF x] have x': "resolveMatch (Suc n) cmpInfo mk off2 rev = Some x" .
      have a: "resolveMatch (Suc n) cmpInfo li off mi =
               (case Some x of None \<Rightarrow> None
                | Some (ret, cmpInfo', mi') \<Rightarrow> Some (ret, cmpInfo', mi\<lparr>matchLen := 0\<rparr>))"
        using False Some x by (simp add: Let_def off2_def rev_def)
      have b: "resolveMatch (Suc (Suc n)) cmpInfo li off mi =
               (case Some x of None \<Rightarrow> None
                | Some (ret, cmpInfo', mi') \<Rightarrow> Some (ret, cmpInfo', mi\<lparr>matchLen := 0\<rparr>))"
        using False Some x'
        by (subst resolveMatch.simps(2)) (simp add: Let_def off2_def rev_def del: resolveMatch.simps)
      from a b Suc.prems show ?thesis by simp
    qed
  qed
qed

lemma lookupLoop_mono:
  "lookupLoop n cmpInfo k lookupEi repeat = Some r \<Longrightarrow>
   lookupLoop (Suc n) cmpInfo k lookupEi repeat = Some r"
proof (induction n arbitrary: cmpInfo k lookupEi repeat r)
  case 0
  then show ?case by simp
next
  case (Suc n)
  define lookupDiff where "lookupDiff = blockDiffs cmpInfo ! k"
  show ?case
  proof (cases "lookupEi < d_len lookupDiff")
    case False
    with Suc.prems show ?thesis by (simp add: Let_def lookupDiff_def)
  next
    case True
    show ?thesis
    proof (cases "getNextUnmoved (moves (d_info lookupDiff)) lookupEi")
      case (Some nxt)
      with True Suc.prems have "lookupLoop n cmpInfo k nxt repeat = Some r"
        by (simp add: Let_def lookupDiff_def)
      from Suc.IH[OF this] show ?thesis
        using True Some
        by (subst lookupLoop.simps(2)) (simp add: Let_def lookupDiff_def del: lookupLoop.simps)
    next
      case None
      define mi0 where "mi0 = findBestMatch cmpInfo lookupDiff lookupEi"
      from True None Suc.prems obtain ret cmpInfo' mi where
        rm: "resolveMatch n cmpInfo k lookupEi mi0 = Some (ret, cmpInfo', mi)"
        by (cases "resolveMatch n cmpInfo k lookupEi mi0")
           (auto simp: Let_def lookupDiff_def mi0_def)
      define nextEi where "nextEi =
          (if ret then (if matchLen mi \<noteq> 0 then lookupOff mi + matchLen mi else lookupEi)
           else lookupEi + 1)"
      define rep where "rep = (if ret then True else repeat)"
      have a: "lookupLoop (Suc n) cmpInfo k lookupEi repeat = lookupLoop n cmpInfo' k nextEi rep"
        using True None rm by (simp add: Let_def lookupDiff_def mi0_def nextEi_def rep_def)
      have b: "lookupLoop (Suc (Suc n)) cmpInfo k lookupEi repeat =
               lookupLoop (Suc n) cmpInfo' k nextEi rep"
        using True None resolveMatch_mono[OF rm]
        by (subst lookupLoop.simps(2))
           (simp add: Let_def lookupDiff_def mi0_def nextEi_def rep_def
                 del: lookupLoop.simps resolveMatch.simps)
      from Suc.prems a have "lookupLoop n cmpInfo' k nextEi rep = Some r" by simp
      from Suc.IH[OF this] b show ?thesis by simp
    qed
  qed
qed

lemma lookupLoop_mono_add:
  "lookupLoop n cmpInfo k lookupEi repeat = Some r \<Longrightarrow>
   lookupLoop (n + d) cmpInfo k lookupEi repeat = Some r"
proof (induction d)
  case 0
  then show ?case by simp
next
  case (Suc d)
  from lookupLoop_mono[OF Suc.IH[OF Suc.prems]] show ?case by simp
qed

lemma lookupLoop_det:
  assumes "lookupLoop n cmpInfo k lookupEi repeat = Some r"
    and "lookupLoop m cmpInfo k lookupEi repeat = Some r'"
  shows "r' = r"
proof -
  from lookupLoop_mono_add[OF assms(1), of m] have "lookupLoop (n + m) cmpInfo k lookupEi repeat = Some r" .
  moreover from lookupLoop_mono_add[OF assms(2), of n]
  have "lookupLoop (n + m) cmpInfo k lookupEi repeat = Some r'" by (simp add: add.commute)
  ultimately show ?thesis by simp
qed

lemma exLoop_best:
  "findBestMatch exLoopState (blockDiffs exLoopState ! 6) 0
     = \<lparr>lookupOff = 0, matchDiff = None, matchOff = 0, matchLen = 0\<rparr>"
  "findBestMatch exLoopState (blockDiffs exLoopState ! 6) 1
     = \<lparr>lookupOff = 0, matchDiff = None, matchOff = 0, matchLen = 0\<rparr>"
  "findBestMatch exLoopState (blockDiffs exLoopState ! 6) 2
     = \<lparr>lookupOff = 0, matchDiff = Some 4, matchOff = 1, matchLen = 3\<rparr>"
  "findBestMatch exLoopState (blockDiffs exLoopState ! 4) 3
     = \<lparr>lookupOff = 3, matchDiff = Some 8, matchOff = 2, matchLen = 2\<rparr>"
  "findBestMatch exLoopState (blockDiffs exLoopState ! 8) 2
     = \<lparr>lookupOff = 0, matchDiff = Some 1, matchOff = 1, matchLen = 3\<rparr>"
  "findBestMatch exLoopState (blockDiffs exLoopState ! 1) 3
     = \<lparr>lookupOff = 3, matchDiff = Some 6, matchOff = 2, matchLen = 2\<rparr>"
  by code_simp+

text \<open>The recursion of \<open>resolveMatch\<close> goes round the blocks 6, 4, 8 and 1 for ever.\<close>

lemma exLoop_cycle:
  "resolveMatch fuel exLoopState 6 2 \<lparr>lookupOff = 0, matchDiff = Some 4, matchOff = 1, matchLen = 3\<rparr> = None \<and>
   resolveMatch fuel exLoopState 4 3 \<lparr>lookupOff = 3, matchDiff = Some 8, matchOff = 2, matchLen = 2\<rparr> = None \<and>
   resolveMatch fuel exLoopState 8 2 \<lparr>lookupOff = 0, matchDiff = Some 1, matchOff = 1, matchLen = 3\<rparr> = None \<and>
   resolveMatch fuel exLoopState 1 3 \<lparr>lookupOff = 3, matchDiff = Some 6, matchOff = 2, matchLen = 2\<rparr> = None"
proof (induction fuel)
  case 0
  show ?case by simp
next
  case (Suc fuel)
  show ?case
    using Suc.IH by (simp add: Let_def exLoop_best del: One_nat_def)
qed

lemma exLoop_blocks:
  "length (blockDiffs exLoopState) = 10"
  "d_type (blockDiffs exLoopState ! 6) = DIFF_IN_1"
  "d_len (blockDiffs exLoopState ! 6) = 4"
  "moves (d_info (blockDiffs exLoopState ! 6)) = []"
  "d_type (blockDiffs exLoopState ! 5) = DIFF_MATCH"
  "d_type (blockDiffs exLoopState ! 4) = DIFF_IN_2"
  "length (blockDiffs exLoop1) = 10"
  "d_type (blockDiffs exLoop1 ! 3) = DIFF_IN_1"
  "d_type (blockDiffs exLoop1 ! 2) = DIFF_MATCH"
  "d_type (blockDiffs exLoop1 ! 1) = DIFF_IN_2"
  "length (blockDiffs exCmpLoop) = 10"
  "d_type (blockDiffs exCmpLoop ! 0) = DIFF_IN_1"
  by code_simp+

lemma exLoop_first:
  "lookupLoop 5 exCmpLoop 0 0 False = Some (exLoop1, True)"
  "lookupLoop 5 exLoop1 3 0 True = Some (exLoopState, True)"
  by code_simp+

lemma exLoop_lookup2: "lookupLoop fuel exLoopState 6 2 True = None"
proof (cases fuel)
  case 0
  then show ?thesis by simp
next
  case (Suc f)
  then show ?thesis
    using exLoop_cycle[of f] by (simp add: Let_def exLoop_best exLoop_blocks del: One_nat_def)
qed

lemma exLoop_lookup1: "lookupLoop fuel exLoopState 6 1 True = None"
proof (cases fuel)
  case 0
  then show ?thesis by simp
next
  case (Suc f)
  show ?thesis
  proof (cases f)
    case 0
    with Suc show ?thesis by (simp add: Let_def exLoop_best exLoop_blocks del: One_nat_def)
  next
    case (Suc g)
    with \<open>fuel = Suc f\<close> show ?thesis
      using exLoop_lookup2[of f]
      by (simp add: Let_def exLoop_best exLoop_blocks del: One_nat_def lookupLoop.simps(2)
            add: lookupLoop.simps(2)[of "Suc g" exLoopState 6 1 True])
  qed
qed

lemma exLoop_lookup0: "lookupLoop fuel exLoopState 6 0 True = None"
proof (cases fuel)
  case 0
  then show ?thesis by simp
next
  case (Suc f)
  show ?thesis
  proof (cases f)
    case 0
    with Suc show ?thesis by (simp add: Let_def exLoop_best exLoop_blocks del: One_nat_def)
  next
    case (Suc g)
    with \<open>fuel = Suc f\<close> show ?thesis
      using exLoop_lookup1[of f]
      by (simp add: Let_def exLoop_best exLoop_blocks del: One_nat_def lookupLoop.simps(2)
            add: lookupLoop.simps(2)[of "Suc g" exLoopState 6 0 True])
  qed
qed

lemma exLoop_blocks6: "blocksLoop fuel exLoopState 6 True = None"
  using exLoop_lookup0 by (cases fuel) (simp_all add: exLoop_blocks del: One_nat_def)

lemma exLoop_blocks5: "blocksLoop fuel exLoopState 5 True = None"
  using exLoop_blocks6 by (cases fuel) (simp_all add: exLoop_blocks del: One_nat_def)

lemma exLoop_blocks4: "blocksLoop fuel exLoopState 4 True = None"
  using exLoop_blocks5 by (cases fuel) (simp_all add: exLoop_blocks del: One_nat_def)

lemma exLoop_blocks3: "blocksLoop fuel exLoop1 3 True = None"
proof (cases fuel)
  case 0
  then show ?thesis by simp
next
  case (Suc f)
  show ?thesis
  proof (cases "lookupLoop f exLoop1 3 0 True")
    case None
    with Suc show ?thesis by (simp add: exLoop_blocks del: One_nat_def)
  next
    case (Some r)
    from lookupLoop_det[OF exLoop_first(2) Some] have "r = (exLoopState, True)" .
    with Suc Some show ?thesis
      using exLoop_blocks4[of f] by (simp add: exLoop_blocks del: One_nat_def)
  qed
qed

lemma exLoop_blocks2: "blocksLoop fuel exLoop1 2 True = None"
  using exLoop_blocks3 by (cases fuel) (simp_all add: exLoop_blocks del: One_nat_def)

lemma exLoop_blocks1: "blocksLoop fuel exLoop1 1 True = None"
  using exLoop_blocks2 by (cases fuel) (simp_all add: exLoop_blocks del: One_nat_def)

lemma exLoop_blocks0: "blocksLoop fuel exCmpLoop 0 False = None"
proof (cases fuel)
  case 0
  then show ?thesis by simp
next
  case (Suc f)
  show ?thesis
  proof (cases "lookupLoop f exCmpLoop 0 0 False")
    case None
    with Suc show ?thesis by (simp add: exLoop_blocks del: One_nat_def)
  next
    case (Some r)
    from lookupLoop_det[OF exLoop_first(1) Some] have "r = (exLoop1, True)" .
    with Suc Some show ?thesis
      using exLoop_blocks1[of f] by (simp add: exLoop_blocks del: One_nat_def)
  qed
qed

text \<open>
  The move detector does not return on \<open>exCmpLoop\<close>, whatever the fuel: after the moves
  of the first and of the second \<open>IN_1\<close> block, the lookup of line 2 of the third one
  starts a recursion of \<open>resolveMatch\<close> that comes back to its first call.
\<close>

lemma findMoves_exCmpLoop: "findMoves fuel exCmpLoop = None"
  using exLoop_blocks0 by (cases fuel) simp_all

text \<open>
  Claim C2, as amended. The move detector does not return on every input: on
  \<open>exCmpLoop\<close> it never does. Whenever it returns, on blocks whose spans lay within
  their blocks before (the line-level diff leaves every \<open>moves\<close> list empty), every span
  of every block's \<open>moves\<close> list lies within \<open>[0, block.len)\<close> and has at least one
  line, and the blocks keep their lengths.
\<close>

theorem findMoves_moves_in_range:
  assumes "findMoves fuel cmpInfo = Some cmpInfo'"
    and "\<forall>b\<in>set (blockDiffs cmpInfo). \<forall>m\<in>set (moves (d_info b)).
           0 \<le> s_off m \<and> 1 \<le> s_len m \<and> s_off m + s_len m \<le> d_len b"
  shows "map d_len (blockDiffs cmpInfo') = map d_len (blockDiffs cmpInfo) \<and>
         (\<forall>b\<in>set (blockDiffs cmpInfo'). \<forall>m\<in>set (moves (d_info b)).
            0 \<le> s_off m \<and> 1 \<le> s_len m \<and> s_off m + s_len m \<le> d_len b) \<and>
         (\<forall>n. findMoves n exCmpLoop = None)"
proof -
  have "all_in_range cmpInfo"
    using assms(2) by (simp add: all_in_range_def moves_in_range_def move_ok_def list_all_iff)
  from findMoves_inv[OF assms(1) this]
  show ?thesis
    by (simp add: all_in_range_def moves_in_range_def move_ok_def list_all_iff findMoves_exCmpLoop)
qed

text \<open>
  The two orders of the example documents: in both, a block ends with two spans that
  share a line.
\<close>

lemma exCmpOverlap_run: "findMoves 60 exCmpOverlap \<noteq> None"
  by code_simp

lemma exCmpOverlap_moves:
  "map (\<lambda>b. map (\<lambda>m. (s_off m, s_len m)) (moves (d_info b)))
     (blockDiffs (the (findMoves 60 exCmpOverlap))) =
   [[(0, 3)], [], [(0, 2)], [], [(0, 3), (2, 2), (4, 3)], [], [(1, 1)], [], [(0, 3), (3, 1)]]"
  by code_simp

lemma exCmpOverlapSwapped_moves:
  "findMoves 60 exCmpOverlapSwapped \<noteq> None \<and>
   \<not> moves_disjoint (moves (d_info (blockDiffs (the (findMoves 60 exCmpOverlapSwapped)) ! 8)))"
  by code_simp

theorem findMoves_moves_in_range_witness:
  "findMoves 60 exCmpOverlap \<noteq> None \<and>
   map d_len (blockDiffs (the (findMoves 60 exCmpOverlap))) = [3, 1, 2, 4, 7, 1, 2, 4, 4] \<and>
   all_in_range (the (findMoves 60 exCmpOverlap))"
proof -
  have run: "findMoves 60 exCmpOverlap = Some (the (findMoves 60 exCmpOverlap))"
    using exCmpOverlap_run by simp
  have init: "\<forall>b\<in>set (blockDiffs exCmpOverlap). \<forall>m\<in>set (moves (d_info b)).
           0 \<le> s_off m \<and> 1 \<le> s_len m \<and> s_off m + s_len m \<le> d_len b"
    by (simp add: exCmpOverlap_def mkBlock_def)
  have lens: "map d_len (blockDiffs exCmpOverlap) = [3, 1, 2, 4, 7, 1, 2, 4, 4]"
    by (simp add: exCmpOverlap_def mkBlock_def)
  show ?thesis
    using findMoves_moves_in_range [OF run init] exCmpOverlap_run lens
    by (simp add: all_in_range_def moves_in_range_def move_ok_def list_all_iff)
qed

text \<open>
  Claim C2 as stated fails: on the first example the spans of the third block are
  \<open>(2, 1), (0, 1)\<close>, not in ascending order; on the second the spans \<open>(0, 3)\<close> and
  \<open>(2, 2)\<close> of the fifth block share line 2.
\<close>

theorem findMoves_moves_counterexample:
  "findMoves 30 exCmpUnsorted \<noteq> None \<and>
   \<not> moves_sorted (moves (d_info (blockDiffs (the (findMoves 30 exCmpUnsorted)) ! 2))) \<and>
   findMoves 60 exCmpOverlap \<noteq> None \<and>
   \<not> moves_disjoint (moves (d_info (blockDiffs (the (findMoves 60 exCmpOverlap)) ! 4)))"
  by code_simp

lemma extends_emplace: "extends b l (emplaceLine b l)"
  unfolding extends_def emplaceLine_def by blast

lemma extends_addChange: "extends b l b' \<Longrightarrow> extends b l (addChange b' c)"
  unfolding extends_def addChange_def by auto

lemma extends_pop: "extends b l b' \<Longrightarrow> popLine b' = b"
  unfolding extends_def popLine_def by auto

lemma extends_length:
  "extends b l b' \<Longrightarrow> length (changedLines (d_info b')) = Suc (length (changedLines (d_info b)))"
  unfolding extends_def by auto

lemma st_extends_add1: "st_extends b1 l1 b2 l2 st \<Longrightarrow> st_extends b1 l1 b2 l2 (addChange1 st c)"
  by (simp add: st_extends_def addChange1_def extends_addChange)

lemma st_extends_add2: "st_extends b1 l1 b2 l2 st \<Longrightarrow> st_extends b1 l1 b2 l2 (addChange2 st c)"
  by (simp add: st_extends_def addChange2_def extends_addChange)

lemma st_extends_total:
  "st_extends b1 l1 b2 l2 st \<Longrightarrow> st_extends b1 l1 b2 l2 (st\<lparr>totalLineMatchLen := n\<rparr>)"
  by (simp add: st_extends_def)

lemma emitResidual_extends:
  "st_extends b1 l1 b2 l2 st \<Longrightarrow>
   st_extends b1 l1 b2 l2 (emitResidual swapped pSec1 pSec2 off1 off2 sds st)"
  by (induction sds arbitrary: st) (simp_all add: st_extends_add1 st_extends_add2)

lemma charLevel_extends:
  assumes "st_extends b1 l1 b2 l2 st"
  shows "case charLevel dc view1 view2 options pLine1 pLine2 lineOff1 lineOff2 ld ld2 st of
           MatchWhole st' \<Rightarrow> st_extends b1 l1 b2 l2 st'
         | MatchEdges st' \<Rightarrow> st_extends b1 l1 b2 l2 st'
         | NoSubMatch \<Rightarrow> True"
  unfolding charLevel_def Let_def
  by (simp add: st_extends_total emitResidual_extends st_extends_add1 st_extends_add2 assms
        del: startMatchLoop.simps endMatchLoop.simps)

lemma segLoop_extends:
  "st_extends b1 l1 b2 l2 st \<Longrightarrow>
   st_extends b1 l1 b2 l2
     (segLoop dc view1 view2 options pLine1 pLine2 lineOff1 lineOff2 n lineDiffs st)"
proof (induction dc view1 view2 options pLine1 pLine2 lineOff1 lineOff2 n lineDiffs st
       rule: segLoop.induct)
  case (1 dc view1 view2 options pLine1 pLine2 lineOff1 lineOff2 n st)
  then show ?case by simp
next
  case (2 dc view1 view2 options pLine1 pLine2 lineOff1 lineOff2 n ld rest st)
  note ext = "2.prems"
  show ?case
  proof (cases "ds_type ld = DIFF_MATCH")
    case True
    then show ?thesis
      using "2.IH"(1)[OF True st_extends_total[OF ext]] by simp
  next
    case nm: False
    show ?thesis
    proof (cases "ds_type ld = DIFF_IN_2")
      case True
      then show ?thesis
        using "2.IH"(2)[OF nm True st_extends_add2[OF ext]] nm by simp
    next
      case n2: False
      show ?thesis
      proof (cases "charPrecision options \<and> rest \<noteq> [] \<and> ds_type (hd rest) = DIFF_IN_2")
        case False
        then show ?thesis
          using "2.IH"(6)[OF nm n2 False st_extends_add1[OF ext]] nm n2 by auto
      next
        case cp: True
        note cl = charLevel_extends[OF ext, of dc view1 view2 options pLine1 pLine2 lineOff1 lineOff2 ld "hd rest"]
        show ?thesis
        proof (cases "charLevel dc view1 view2 options pLine1 pLine2 lineOff1 lineOff2 ld (hd rest) st")
          case (MatchWhole st')
          then have "st_extends b1 l1 b2 l2 st'" using cl by simp
          from "2.IH"(3)[OF nm n2 cp MatchWhole this] show ?thesis
            using nm n2 cp MatchWhole by simp
        next
          case (MatchEdges st')
          then have "st_extends b1 l1 b2 l2 st'" using cl by simp
          from "2.IH"(4)[OF nm n2 cp MatchEdges this] show ?thesis
            using nm n2 cp MatchEdges by simp
        next
          case NoSubMatch
          show ?thesis
          proof (cases "n = 2")
            case True
            then show ?thesis using nm n2 cp NoSubMatch ext by simp
          next
            case False
            from "2.IH"(5)[OF nm n2 cp NoSubMatch False st_extends_add1[OF ext]] show ?thesis
              using nm n2 cp NoSubMatch False by simp
          qed
        qed
      qed
    qed
  qed
qed

lemma scanPair_extends:
  "let r = scanPair dc hst doc1' doc2' options (b1, b2) line1 line2
   in if ps_swapped r then st_extends b2 line2 b1 line1 (ps_state r)
      else st_extends b1 line1 b2 line2 (ps_state r)"
proof -
  have init: "st_extends c1 l1 c2 l2 \<lparr>pBlockDiff1 = emplaceLine c1 l1, pBlockDiff2 = emplaceLine c2 l2,
                 totalLineMatchLen = 0\<rparr>" for c1 l1 c2 l2
    by (simp add: st_extends_def extends_emplace)
  show ?thesis
    unfolding scanPair_def Let_def
    by (simp add: segLoop_extends init del: segLoop.simps)
qed





lemma comparePair_cases:
  "let r = scanPair dc hst doc1' doc2' options (b1, b2) line1 line2
   in if (totalLineMatchLen (ps_state r) * 100) div max (ps_lineLen1 r) (ps_lineLen2 r)
           < matchPercentThreshold options
      then comparePair dc hst doc1' doc2' options (b1, b2) line1 line2 = (b1, b2)
      else extends b1 line1 (fst (comparePair dc hst doc1' doc2' options (b1, b2) line1 line2)) \<and>
           extends b2 line2 (snd (comparePair dc hst doc1' doc2' options (b1, b2) line1 line2))"
proof -
  define r where "r = scanPair dc hst doc1' doc2' options (b1, b2) line1 line2"
  have ext: "if ps_swapped r then st_extends b2 line2 b1 line1 (ps_state r)
             else st_extends b1 line1 b2 line2 (ps_state r)"
    using scanPair_extends[of dc hst doc1' doc2' options b1 b2 line1 line2]
    by (simp add: r_def Let_def)
  show ?thesis
  proof (cases "ps_swapped r")
    case True
    with ext have e: "extends b2 line2 (pBlockDiff1 (ps_state r))" "extends b1 line1 (pBlockDiff2 (ps_state r))"
      by (simp_all add: st_extends_def)
    show ?thesis
      using True e extends_pop[OF e(1)] extends_pop[OF e(2)]
      unfolding comparePair_def Let_def r_def[symmetric] by simp
  next
    case False
    with ext have e: "extends b1 line1 (pBlockDiff1 (ps_state r))" "extends b2 line2 (pBlockDiff2 (ps_state r))"
      by (simp_all add: st_extends_def)
    show ?thesis
      using False e extends_pop[OF e(1)] extends_pop[OF e(2)]
      unfolding comparePair_def Let_def r_def[symmetric] by simp
  qed
qed

text \<open>
  C8. For a line pair processed by \<open>compareLines\<close>: when, after the loop over the word
  segments, \<open>totalLineMatchLen * 100 / max(lineLen1, lineLen2)\<close> is below
  \<open>matchPercentThreshold\<close>, the iteration leaves both blocks, and so their \<open>changedLines\<close>,
  exactly as they were before the pair was processed.
\<close>

theorem compareLines_whole_line_reject:
  assumes "r = scanPair dc hst doc1' doc2' options (blockDiff1, blockDiff2) line1 line2"
    and "0 < max (ps_lineLen1 r) (ps_lineLen2 r)"
    and "(totalLineMatchLen (ps_state r) * 100) div max (ps_lineLen1 r) (ps_lineLen2 r)
           < matchPercentThreshold options"
  shows "comparePair dc hst doc1' doc2' options (blockDiff1, blockDiff2) line1 line2
           = (blockDiff1, blockDiff2)"
  using comparePair_cases[of dc hst doc1' doc2' options blockDiff1 blockDiff2 line1 line2] assms(1,3)
  by (simp add: Let_def)

theorem compareLines_whole_line_reject_witness:
  "0 < max (ps_lineLen1 (scanPair exNoMatchEngine exHostXY exDoc1 exDoc2 exOptions (exBlock1, exBlock2) 0 0))
           (ps_lineLen2 (scanPair exNoMatchEngine exHostXY exDoc1 exDoc2 exOptions (exBlock1, exBlock2) 0 0)) \<and>
   (totalLineMatchLen (ps_state (scanPair exNoMatchEngine exHostXY exDoc1 exDoc2 exOptions (exBlock1, exBlock2) 0 0)) * 100)
      div max (ps_lineLen1 (scanPair exNoMatchEngine exHostXY exDoc1 exDoc2 exOptions (exBlock1, exBlock2) 0 0))
              (ps_lineLen2 (scanPair exNoMatchEngine exHostXY exDoc1 exDoc2 exOptions (exBlock1, exBlock2) 0 0))
      < matchPercentThreshold exOptions \<and>
   comparePair exNoMatchEngine exHostXY exDoc1 exDoc2 exOptions (exBlock1, exBlock2) 0 0
     = (exBlock1, exBlock2)"
proof -
  let ?r = "scanPair exNoMatchEngine exHostXY exDoc1 exDoc2 exOptions (exBlock1, exBlock2) 0 0"
  have a: "0 < max (ps_lineLen1 ?r) (ps_lineLen2 ?r)"
    by code_simp
  have b: "(totalLineMatchLen (ps_state ?r) * 100) div max (ps_lineLen1 ?r) (ps_lineLen2 ?r)
             < matchPercentThreshold exOptions"
    by code_simp
  from compareLines_whole_line_reject[OF refl a b] a b show ?thesis
    by simp
qed





end
